theory Spec2Isabelle
  imports Main "HOL-Library.Sublist"
begin

section \<open>Python string primitives\<close>

text \<open>
  Python \<open>str\<close> values are modelled as \<open>string\<close>; the code points are those of one byte.
  \<open>is_space\<close> is \<open>str.isspace\<close> on that range, which is also what the pattern \<open>\s\<close>
  matches: tab, line feed, vertical tab, form feed, carriage return, the separators
  0x1C to 0x1F, space, 0x85 and 0xA0.
\<close>

definition is_space :: "char \<Rightarrow> bool" where
  "is_space c = (let n = (of_char c :: nat) in
     (9 \<le> n \<and> n \<le> 13) \<or> (28 \<le> n \<and> n \<le> 32) \<or> n = 133 \<or> n = 160)"

definition lstrip :: "string \<Rightarrow> string" where
  "lstrip s = dropWhile is_space s"

definition rstrip :: "string \<Rightarrow> string" where
  "rstrip s = rev (dropWhile is_space (rev s))"

definition strip :: "string \<Rightarrow> string" where
  "strip s = rstrip (lstrip s)"

text \<open>\<open>s.rstrip(c)\<close> for a single character \<open>c\<close>: every trailing \<open>c\<close> is removed.\<close>

definition rstrip_chr :: "char \<Rightarrow> string \<Rightarrow> string" where
  "rstrip_chr c s = rev (dropWhile (\<lambda>x. x = c) (rev s))"

definition startswith :: "string \<Rightarrow> string \<Rightarrow> bool" where
  "startswith s p = (take (length p) s = p)"

definition endswith :: "string \<Rightarrow> string \<Rightarrow> bool" where
  "endswith s p = (take (length p) (rev s) = rev p)"

text \<open>\<open>sub in s\<close>.\<close>

fun contains :: "string \<Rightarrow> string \<Rightarrow> bool" where
  "contains [] sub = (sub = [])"
| "contains (x # xs) sub = (startswith (x # xs) sub \<or> contains xs sub)"

definition count_chr :: "char \<Rightarrow> string \<Rightarrow> nat" where
  "count_chr c s = length (filter (\<lambda>x. x = c) s)"

text \<open>\<open>s.split(c)\<close> with a separator of one character: never empty, one more part than
  there are separators.\<close>

fun split_chr :: "char \<Rightarrow> string \<Rightarrow> string list" where
  "split_chr c [] = [[]]"
| "split_chr c (x # xs) =
     (if x = c then [] # split_chr c xs
      else (case split_chr c xs of [] \<Rightarrow> [[x]] | p # ps \<Rightarrow> (x # p) # ps))"

text \<open>\<open>sep.join(parts)\<close>.\<close>

fun join :: "string \<Rightarrow> string list \<Rightarrow> string" where
  "join sep [] = []"
| "join sep [p] = p"
| "join sep (p # q # ps) = p @ sep @ join sep (q # ps)"

text \<open>\<open>s.replace(a, b)\<close> for single characters.\<close>

definition replace_chr :: "char \<Rightarrow> char \<Rightarrow> string \<Rightarrow> string" where
  "replace_chr a b s = map (\<lambda>x. if x = a then b else x) s"

text \<open>\<open>re.sub(r'\s+', ' ', s)\<close>: every maximal run of whitespace becomes one space.\<close>

fun collapse_ws :: "string \<Rightarrow> string" where
  "collapse_ws [] = []"
| "collapse_ws [c] = [if is_space c then CHR '' '' else c]"
| "collapse_ws (c # d # cs) =
     (if is_space c \<and> is_space d then collapse_ws (d # cs)
      else (if is_space c then CHR '' '' else c) # collapse_ws (d # cs))"

section \<open>The table-row repair pass\<close>

text \<open>\<open>_clean_table_row\<close>: the parts before the first and after the last pipe are kept;
  every part in between is stripped, its whitespace runs collapsed, and wrapped in one
  space on each side.\<close>

definition clean_cell :: "string \<Rightarrow> string" where
  "clean_cell part =
     (let cleaned = strip part;
          cleaned = collapse_ws cleaned;
          cleaned = replace_chr (CHR 0x0D) (CHR '' '') (replace_chr (CHR 0x0A) (CHR '' '') cleaned)
      in '' '' @ cleaned @ '' '')"

definition clean_table_row :: "string \<Rightarrow> string" where
  "clean_table_row row =
     (if strip row = [] \<or> CHR ''|'' \<notin> set row then row
      else let parts = split_chr (CHR ''|'') row;
               n = length parts;
               cleaned_parts = map (\<lambda>(i, part). if i = 0 \<or> i = n - 1 then part else clean_cell part)
                                   (zip [0..<n] parts)
           in join ''|'' cleaned_parts)"

text \<open>The test of the outer loop of \<open>_fix_markdown_tables\<close>: the line looks like a table row.\<close>

definition is_table_row :: "string \<Rightarrow> bool" where
  "is_table_row line =
     (CHR ''|'' \<in> set line \<and> startswith (strip line) ''|'' \<and> endswith (strip line) ''|'')"

text \<open>One continuation line merged into the row built so far.\<close>

definition merge_continuation :: "string \<Rightarrow> string \<Rightarrow> string" where
  "merge_continuation table_row next_line =
     (let continuation_text = strip next_line
      in if continuation_text \<noteq> [] then
           (let t = rstrip (rstrip_chr (CHR ''|'') table_row) @ '' '' @ continuation_text
            in if endswith t ''|'' then t else t @ '' |'')
         else table_row)"

text \<open>The three tests that end the look-ahead at a line (already stripped).\<close>

definition stops :: "string \<Rightarrow> string \<Rightarrow> bool" where
  "stops table_row next_line =
     ((CHR ''|'' \<in> set next_line \<and> contains next_line ''---'')
      \<or> (CHR ''|'' \<in> set next_line \<and> startswith next_line ''|'' \<and> endswith next_line ''|''
          \<and> count_chr (CHR ''|'') next_line \<ge> count_chr (CHR ''|'') table_row)
      \<or> (next_line = [] \<or> CHR ''|'' \<notin> set next_line))"

text \<open>The inner \<open>while j < len(lines)\<close> loop: the lines from \<open>j\<close> on are the second
  argument; the result is the merged row and the lines left from the final \<open>j\<close> on.\<close>

fun absorb :: "string \<Rightarrow> string list \<Rightarrow> string \<times> string list" where
  "absorb table_row [] = (table_row, [])"
| "absorb table_row (l # ls) =
     (let next_line = strip l
      in if stops table_row next_line then (table_row, l # ls)
         else absorb (merge_continuation table_row next_line) ls)"

text \<open>The outer \<open>while i < len(lines)\<close> loop on the lines from \<open>i\<close> on. (The source also
  computes \<open>is_header\<close> and never reads it.)\<close>

function fix_lines :: "string list \<Rightarrow> string list" where
  "fix_lines [] = []"
| "fix_lines (line # ls) =
     (if is_table_row line
      then clean_table_row (fst (absorb line ls)) # fix_lines (snd (absorb line ls))
      else line # fix_lines ls)"
  by pat_completeness auto
termination
proof (relation "measure length")
  show "wf (measure length)" by simp
next
  fix line :: string and ls :: "string list"
  have "length (snd (absorb r ls)) \<le> length ls" for r
    by (induction ls arbitrary: r) (auto simp: Let_def le_SucI)
  then show "(snd (absorb line ls), line # ls) \<in> measure length"
    by (simp add: le_imp_less_Suc)
next
  fix line :: string and ls :: "string list"
  show "(ls, line # ls) \<in> measure length" by simp
qed

definition fix_markdown_tables :: "string \<Rightarrow> string" where
  "fix_markdown_tables markdown_content =
     join [CHR 0x0A] (fix_lines (split_chr (CHR 0x0A) markdown_content))"

section \<open>The document tree\<close>

text \<open>
  A node of the parsed tree: a string (\<open>NavigableString\<close>) or a tag with its name (the
  parser lower-cases it), its attributes and its children in document order.
\<close>

datatype node = Text string | Elem string "(string \<times> string) list" "node list"

fun tag_name :: "node \<Rightarrow> string option" where
  "tag_name (Text s) = None"
| "tag_name (Elem n a cs) = Some n"

fun children :: "node \<Rightarrow> node list" where
  "children (Text s) = []"
| "children (Elem n a cs) = cs"

definition named :: "string list \<Rightarrow> node \<Rightarrow> bool" where
  "named names x = (case tag_name x of None \<Rightarrow> False | Some n \<Rightarrow> n \<in> set names)"

text \<open>\<open>tag.descendants\<close>: every node below the tag, in document order.\<close>

fun descendants :: "node \<Rightarrow> node list" where
  "descendants (Text s) = []"
| "descendants (Elem n a cs) = concat (map (\<lambda>c. c # descendants c) cs)"

text \<open>\<open>tag.find_all(names)\<close>, \<open>tag.find(name)\<close> and \<open>tag.find_all(names, recursive=False)\<close>.\<close>

definition find_all :: "string list \<Rightarrow> node \<Rightarrow> node list" where
  "find_all names x = filter (named names) (descendants x)"

definition find :: "string \<Rightarrow> node \<Rightarrow> node option" where
  "find name x = (case find_all [name] x of [] \<Rightarrow> None | y # ys \<Rightarrow> Some y)"

definition find_children :: "string list \<Rightarrow> node \<Rightarrow> node list" where
  "find_children names x = filter (named names) (children x)"

text \<open>The strings below a node, in document order.\<close>

fun all_strings :: "node \<Rightarrow> string list" where
  "all_strings (Text s) = [s]"
| "all_strings (Elem n a cs) = concat (map all_strings cs)"

text \<open>\<open>tag.get_text(" ", strip=True)\<close>: every string stripped, the empty ones dropped,
  the rest joined by one space.\<close>

definition get_text :: "node \<Rightarrow> string" where
  "get_text x = join '' '' (filter (\<lambda>s. s \<noteq> []) (map strip (all_strings x)))"

text \<open>\<open>for t in copy.find_all('table'): t.decompose()\<close>: every table below the node is
  taken out of the tree.\<close>

fun remove_tables :: "node \<Rightarrow> node" where
  "remove_tables (Text s) = Text s"
| "remove_tables (Elem n a cs) =
     Elem n a (map remove_tables (filter (\<lambda>c. \<not> named [''table''] c) cs))"

section \<open>The converter's collaborators and options\<close>

datatype py_exception = Exception string

text \<open>
  The parser and the base converter are libraries. \<open>parse_html s\<close> is
  \<open>BeautifulSoup(s, 'html.parser')\<close>, which may raise; its result is the root object with
  the parsed nodes as children. \<open>to_html x\<close> is \<open>str(x)\<close>. \<open>std_convert_table\<close> is
  \<open>MarkdownConverter.convert_table\<close>, the pipe-table converter of the library.
\<close>

record env =
  parse_html :: "string \<Rightarrow> py_exception + node"
  to_html :: "node \<Rightarrow> string"
  std_convert_table :: "node \<Rightarrow> string \<Rightarrow> bool \<Rightarrow> string"

record options =
  preserve_tables_as_html :: bool
  sanitize_tables_html :: bool
  nested_table_handling :: string
  keep_data_uris :: bool
  keep_inline_images_in :: "string list"

section \<open>Sanitized HTML for preserved tables\<close>

definition is_wrapper :: "node \<Rightarrow> bool" where
  "is_wrapper x = (named [''div'', ''span''] x \<and> (\<exists>c \<in> set (children x). named [''table''] c))"

text \<open>\<open>wrap.unwrap()\<close> for every wrapper found in the tree as parsed: the wrapper is
  replaced by its children.\<close>

fun unwrap_wrappers :: "node \<Rightarrow> node" where
  "unwrap_wrappers (Text s) = Text s"
| "unwrap_wrappers (Elem n a cs) =
     Elem n a (concat (map (\<lambda>c. if is_wrapper c then children (unwrap_wrappers c)
                                else [unwrap_wrappers c]) cs))"

definition table_tags :: "string list" where
  "table_tags = [''table'', ''thead'', ''tbody'', ''tfoot'', ''tr'', ''td'', ''th'', ''colgroup'', ''col'']"

definition allowed_attrs :: "string list" where
  "allowed_attrs = [''scope'', ''colspan'', ''rowspan'']"

fun sanitize_attrs :: "node \<Rightarrow> node" where
  "sanitize_attrs (Text s) = Text s"
| "sanitize_attrs (Elem n a cs) =
     Elem n (if n \<in> set table_tags then filter (\<lambda>(k, v). k \<in> set allowed_attrs) a else a)
            (map sanitize_attrs cs)"

text \<open>\<open>_sanitize_table_html\<close>: its own \<open>except\<close> returns the text as it came.\<close>

definition sanitize_table_html :: "env \<Rightarrow> options \<Rightarrow> string \<Rightarrow> string" where
  "sanitize_table_html e opts html =
     (if \<not> sanitize_tables_html opts then html
      else case parse_html e html of
             Inl ex \<Rightarrow> html
           | Inr soup \<Rightarrow> to_html e (sanitize_attrs (unwrap_wrappers soup)))"

section \<open>The table flattener\<close>

definition digit_chr :: "nat \<Rightarrow> char" where
  "digit_chr d = char_of (48 + d)"

text \<open>\<open>str(n)\<close> for a natural number, as an f-string formats it.\<close>

function str_nat :: "nat \<Rightarrow> string" where
  "str_nat n = (if n < 10 then [digit_chr n] else str_nat (n div 10) @ [digit_chr (n mod 10)])"
  by pat_completeness auto
termination
  by (relation "measure id") auto

text \<open>\<open>escape_pipes\<close>: \<open>s.replace('|', '\\|')\<close>.\<close>

definition escape_pipes :: "string \<Rightarrow> string" where
  "escape_pipes s = concat (map (\<lambda>c. if c = CHR ''|'' then [CHR 0x5C, CHR ''|''] else [c]) s)"

text \<open>\<open>x or ' '\<close>.\<close>

definition or_space :: "string \<Rightarrow> string" where
  "or_space s = (if s = [] then '' '' else s)"

text \<open>\<open>text_without_nested\<close>: the cell is printed and parsed again, the tables of the
  copy are removed, and the text of what is left is taken.\<close>

definition text_without_nested :: "env \<Rightarrow> node \<Rightarrow> py_exception + string" where
  "text_without_nested e cell =
     (case parse_html e (to_html e cell) of
        Inl ex \<Rightarrow> Inl ex
      | Inr cell_copy \<Rightarrow> Inr (get_text (remove_tables cell_copy)))"

text \<open>\<open>iter_rows\<close>, also the row collection of \<open>convert_nested_table_to_markdown\<close>: the
  rows of the first \<open>thead\<close>, then those of the first \<open>tbody\<close>, or the table's own rows
  when it has neither.\<close>

definition iter_rows :: "node \<Rightarrow> node list" where
  "iter_rows table_tag =
     (let thead = find ''thead'' table_tag; tbody = find ''tbody'' table_tag
      in (case thead of None \<Rightarrow> [] | Some h \<Rightarrow> find_children [''tr''] h)
         @ (case tbody of None \<Rightarrow> [] | Some b \<Rightarrow> find_children [''tr''] b)
         @ (if thead = None \<and> tbody = None then find_children [''tr''] table_tag else []))"

definition cells_in_row :: "node \<Rightarrow> node list" where
  "cells_in_row row = find_children [''th'', ''td''] row"

definition md_row :: "string list \<Rightarrow> string" where
  "md_row cells = ''| '' @ join '' | '' cells @ '' |''"

definition md_separator :: "nat \<Rightarrow> string" where
  "md_separator n = ''| '' @ join '' | '' (replicate n ''---'') @ '' |''"

text \<open>\<open>convert_nested_table_to_markdown\<close>. Nothing in its \<open>try\<close> block calls the parser
  except through \<open>_sanitize_table_html\<close>, which catches its own exceptions.\<close>

definition nested_md_lines :: "node list \<Rightarrow> string list" where
  "nested_md_lines nested_rows =
     concat (map (\<lambda>(i, row).
        let cells = cells_in_row row;
            cell_texts = map (\<lambda>cell. or_space (escape_pipes (get_text cell))) cells
        in md_row cell_texts # (if i = 0 then [md_separator (length cell_texts)] else []))
       (zip [0..<length nested_rows] nested_rows))"

definition convert_nested_table_to_markdown :: "env \<Rightarrow> options \<Rightarrow> node \<Rightarrow> string" where
  "convert_nested_table_to_markdown e opts table_tag =
     (if find ''table'' table_tag \<noteq> None then sanitize_table_html e opts (to_html e table_tag)
      else let nested_rows = iter_rows table_tag
           in if nested_rows = [] then sanitize_table_html e opts (to_html e table_tag)
              else join [CHR 0x0A] (nested_md_lines nested_rows))"

text \<open>The block appended for one nested table, labelled with its index.\<close>

definition table_block :: "env \<Rightarrow> options \<Rightarrow> nat \<Rightarrow> node \<Rightarrow> string" where
  "table_block e opts nested_idx t =
     ''**Table '' @ str_nat nested_idx @ '':**'' @ [CHR 0x0A, CHR 0x0A]
       @ strip (convert_nested_table_to_markdown e opts t) @ [CHR 0x0A]"

text \<open>The loop \<open>for t in nested_tables\<close>: the blocks and the index after it.\<close>

fun nested_blocks_from :: "env \<Rightarrow> options \<Rightarrow> nat \<Rightarrow> node list \<Rightarrow> string list \<times> nat" where
  "nested_blocks_from e opts nested_idx [] = ([], nested_idx)"
| "nested_blocks_from e opts nested_idx (t # ts) =
     (let (blocks, idx') = nested_blocks_from e opts (nested_idx + 1) ts
      in (table_block e opts nested_idx t # blocks, idx'))"

text \<open>The reference written into the cell: a link to the first of its tables.\<close>

definition reference :: "nat \<Rightarrow> nat \<Rightarrow> string" where
  "reference start_idx nested_idx =
     (if start_idx = nested_idx - 1
      then ''[See Table '' @ str_nat start_idx @ ''](#table-'' @ str_nat start_idx @ '')''
      else ''[See Tables '' @ str_nat start_idx @ ''-'' @ str_nat (nested_idx - 1)
             @ ''](#table-'' @ str_nat start_idx @ '')'')"

text \<open>The body of \<open>for c in cells\<close>: the cell's text, its blocks, the next index.\<close>

definition process_cell ::
  "env \<Rightarrow> options \<Rightarrow> nat \<Rightarrow> node \<Rightarrow> py_exception + (string \<times> string list \<times> nat)" where
  "process_cell e opts nested_idx c =
     (case text_without_nested e c of
        Inl ex \<Rightarrow> Inl ex
      | Inr t \<Rightarrow>
          (let base_text = escape_pipes t;
               nested_tables = find_all [''table''] c
           in if nested_tables \<noteq> [] then
                (let start_idx = nested_idx;
                     (blocks, idx') = nested_blocks_from e opts nested_idx nested_tables;
                     ref = reference start_idx idx'
                 in Inr (if base_text \<noteq> [] then base_text @ '' ('' @ ref @ '')'' else ref,
                         blocks, idx'))
              else Inr (base_text, [], nested_idx)))"

fun process_cells ::
  "env \<Rightarrow> options \<Rightarrow> nat \<Rightarrow> node list \<Rightarrow> py_exception + (string list \<times> string list \<times> nat)" where
  "process_cells e opts nested_idx [] = Inr ([], [], nested_idx)"
| "process_cells e opts nested_idx (c # cs) =
     (case process_cell e opts nested_idx c of
        Inl ex \<Rightarrow> Inl ex
      | Inr (t, blocks, idx') \<Rightarrow>
          (case process_cells e opts idx' cs of
             Inl ex \<Rightarrow> Inl ex
           | Inr (texts, row_blocks, idx'') \<Rightarrow> Inr (t # texts, blocks @ row_blocks, idx'')))"

text \<open>Pad or truncate to the header's width.\<close>

definition pad_truncate :: "nat \<Rightarrow> string list \<Rightarrow> string list" where
  "pad_truncate width texts =
     (if length texts < width then texts @ replicate (width - length texts) []
      else take width texts)"

text \<open>The loop \<open>for r in body_rows\<close>: the cell lists of the emitted rows, the nested
  blocks, the next index.\<close>

fun process_rows ::
  "env \<Rightarrow> options \<Rightarrow> nat \<Rightarrow> nat \<Rightarrow> node list
     \<Rightarrow> py_exception + (string list list \<times> string list \<times> nat)" where
  "process_rows e opts width nested_idx [] = Inr ([], [], nested_idx)"
| "process_rows e opts width nested_idx (r # rs) =
     (case process_cells e opts nested_idx (cells_in_row r) of
        Inl ex \<Rightarrow> Inl ex
      | Inr (texts, row_blocks, idx') \<Rightarrow>
          (case process_rows e opts width idx' rs of
             Inl ex \<Rightarrow> Inl ex
           | Inr (rows, nested_blocks, idx'') \<Rightarrow>
               Inr (pad_truncate width texts # rows, row_blocks @ nested_blocks, idx'')))"

text \<open>The header: the texts of the first row when it has a \<open>th\<close>, else blank cells.\<close>

fun header_texts :: "env \<Rightarrow> node list \<Rightarrow> py_exception + string list" where
  "header_texts e [] = Inr []"
| "header_texts e (c # cs) =
     (case text_without_nested e c of
        Inl ex \<Rightarrow> Inl ex
      | Inr t \<Rightarrow> (case header_texts e cs of
                    Inl ex \<Rightarrow> Inl ex
                  | Inr ts \<Rightarrow> Inr (or_space (escape_pipes t) # ts)))"

definition split_header :: "env \<Rightarrow> node list \<Rightarrow> py_exception + (string list \<times> node list)" where
  "split_header e rows =
     (case rows of
        [] \<Rightarrow> Inr ([], [])
      | r # rs \<Rightarrow>
          (let first_cells = cells_in_row r
           in if \<exists>c \<in> set first_cells. tag_name c = Some ''th''
              then (case header_texts e first_cells of
                      Inl ex \<Rightarrow> Inl ex
                    | Inr header_cells \<Rightarrow> Inr (header_cells, rs))
              else Inr (replicate (length first_cells) '' '', r # rs)))"

text \<open>The flat table as the code holds it before printing: the header cells, the cell
  list of every body row, the nested blocks.\<close>

record flat_table =
  header_cells :: "string list"
  body_cells :: "string list list"
  nested_blocks :: "string list"

definition flatten_rows :: "env \<Rightarrow> options \<Rightarrow> node list \<Rightarrow> py_exception + flat_table" where
  "flatten_rows e opts rows =
     (case split_header e rows of
        Inl ex \<Rightarrow> Inl ex
      | Inr (hdr, body_rows) \<Rightarrow>
          (case process_rows e opts (length hdr) 1 body_rows of
             Inl ex \<Rightarrow> Inl ex
           | Inr (body, blocks, idx) \<Rightarrow>
               Inr \<lparr>header_cells = hdr, body_cells = body, nested_blocks = blocks\<rparr>))"

definition render_flat :: "flat_table \<Rightarrow> string" where
  "render_flat ft =
     (let md_lines = md_row (header_cells ft) # md_separator (length (header_cells ft))
                       # map md_row (body_cells ft);
          out = join [CHR 0x0A] md_lines;
          out = (if nested_blocks ft \<noteq> []
                 then out @ [CHR 0x0A, CHR 0x0A] @ join [CHR 0x0A, CHR 0x0A] (nested_blocks ft)
                 else out)
      in out @ [CHR 0x0A])"

text \<open>The \<open>append\<close> strategy on a table with a nested table.\<close>

definition flatten_append :: "env \<Rightarrow> options \<Rightarrow> node \<Rightarrow> py_exception + string" where
  "flatten_append e opts el =
     (let rows = iter_rows el
      in if rows = [] then Inr []
         else (case flatten_rows e opts rows of
                 Inl ex \<Rightarrow> Inl ex
               | Inr ft \<Rightarrow> Inr (render_flat ft)))"

text \<open>The \<open>try\<close> block of \<open>convert_table\<close>: an exception, a returned text, or the fall
  through to the end of the block (\<open>None\<close>). The element is a tag of the parsed tree, so
  the first test of the source, for a string given in place of a tag, does not apply.
  Any strategy other than \<open>html\<close> is handled as \<open>append\<close>.\<close>

definition convert_table_try :: "env \<Rightarrow> options \<Rightarrow> node \<Rightarrow> py_exception + string option" where
  "convert_table_try e opts el =
     (if preserve_tables_as_html opts
      then Inr (Some ([CHR 0x0A, CHR 0x0A] @ sanitize_table_html e opts (to_html e el)
                      @ [CHR 0x0A, CHR 0x0A]))
      else let has_nested = (find ''table'' el \<noteq> None)
           in if has_nested then
                (if nested_table_handling opts = ''html''
                 then Inr (Some ([CHR 0x0A, CHR 0x0A] @ sanitize_table_html e opts (to_html e el)
                                 @ [CHR 0x0A, CHR 0x0A]))
                 else (case flatten_append e opts el of
                         Inl ex \<Rightarrow> Inl ex
                       | Inr out \<Rightarrow> Inr (Some out)))
              else Inr None)"

text \<open>\<open>convert_table\<close>: \<open>except Exception: pass\<close>, then the library's converter.\<close>

definition convert_table :: "env \<Rightarrow> options \<Rightarrow> node \<Rightarrow> string \<Rightarrow> bool \<Rightarrow> string" where
  "convert_table e opts el text convert_as_inline =
     (case convert_table_try e opts el of
        Inr (Some out) \<Rightarrow> out
      | _ \<Rightarrow> std_convert_table e el text convert_as_inline)"

section \<open>Images\<close>





section \<open>The patterns of the sanitizer\<close>
























section \<open>The HTML sanitizer\<close>





section \<open>The conversion of a document\<close>



section \<open>Example collaborators\<close>

text \<open>A printer and a parser that knows the nodes it is given: it returns a root object
  holding the node whose print it reads, and raises on any other text.\<close>

fun demo_to_html :: "node \<Rightarrow> string" where
  "demo_to_html (Text s) = s"
| "demo_to_html (Elem n a cs) = ''<'' @ n @ ''>'' @ concat (map demo_to_html cs) @ ''</'' @ n @ ''>''"

definition demo_parse :: "node list \<Rightarrow> string \<Rightarrow> py_exception + node" where
  "demo_parse known s =
     (case filter (\<lambda>c. demo_to_html c = s) known of
        [] \<Rightarrow> Inl (Exception ''cannot parse'')
      | c # cs \<Rightarrow> Inr (Elem ''[document]'' [] [c]))"

definition demo_env :: "node list \<Rightarrow> env" where
  "demo_env known = \<lparr>parse_html = demo_parse known, to_html = demo_to_html,
                      std_convert_table = (\<lambda>el text inl. ''<std>'')\<rparr>"

definition demo_opts :: options where
  "demo_opts = \<lparr>preserve_tables_as_html = False, sanitize_tables_html = True,
                 nested_table_handling = ''append'', keep_data_uris = False,
                 keep_inline_images_in = []\<rparr>"

definition plain_table :: node where
  "plain_table =
     Elem ''table'' [] [Elem ''tr'' [] [Elem ''th'' [] [Text ''A''], Elem ''th'' [] [Text ''B'']],
                        Elem ''tr'' [] [Elem ''td'' [] [Text ''1''], Elem ''td'' [] [Text ''2'']]]"

definition nested_a :: node where
  "nested_a = Elem ''table'' [] [Elem ''tr'' [] [Elem ''td'' [] [Text ''x''], Elem ''td'' [] [Text ''y'']]]"

definition nested_b :: node where
  "nested_b = Elem ''table'' [] [Elem ''tr'' [] [Elem ''td'' [] [Text ''p'']]]"

definition cell_one :: node where
  "cell_one = Elem ''td'' [] [Text '' one '', nested_a]"

definition cell_two :: node where
  "cell_two = Elem ''td'' [] [nested_a, nested_b]"

definition cell_extra :: node where
  "cell_extra = Elem ''td'' [] [Text ''extra'']"

definition cell_short :: node where
  "cell_short = Elem ''td'' [] [Text ''short'']"

definition head_a :: node where
  "head_a = Elem ''th'' [] [Text ''A'']"

definition head_b :: node where
  "head_b = Elem ''th'' [] [Text ''B'']"


definition demo_cells :: "node list" where
  "demo_cells = [head_a, head_b, cell_one, cell_two, cell_extra, cell_short]"



section \<open>Notions used to state the properties\<close>

text \<open>The blocks of a list of tables labelled with consecutive indices from \<open>n\<close> on.\<close>

definition labelled_blocks :: "env \<Rightarrow> options \<Rightarrow> nat \<Rightarrow> node list \<Rightarrow> string list" where
  "labelled_blocks e opts n ts =
     map (\<lambda>(i, t). table_block e opts i t) (zip [n..<n + length ts] ts)"









text \<open>A text with a table row broken over two lines between two lines of prose.\<close>

definition broken_row_text :: string where
  "broken_row_text = ''intro'' @ [CHR 0x0A] @ ''| a  |'' @ [CHR 0x0A] @ ''b | c'' @ [CHR 0x0A] @ ''outro''"

text \<open>Notions for the repair pass. A text of whitespace only.\<close>

definition all_space :: "string \<Rightarrow> bool" where
  "all_space s = (\<forall>c \<in> set s. is_space c)"

text \<open>A text whose whitespace is single spaces.\<close>

fun tidy :: "string \<Rightarrow> bool" where
  "tidy [] = True"
| "tidy [c] = (is_space c \<longrightarrow> c = CHR '' '')"
| "tidy (c # d # s) = ((is_space c \<longrightarrow> c = CHR '' '' \<and> \<not> is_space d) \<and> tidy (d # s))"

text \<open>The cleaned content of a cell, without the spaces that wrap it.\<close>

definition norm_cell :: "string \<Rightarrow> string" where
  "norm_cell p = collapse_ws (strip p)"

text \<open>The first and the last character that is not whitespace is a pipe.\<close>

definition row_start :: "string \<Rightarrow> bool" where
  "row_start x = (\<exists>ws rest. all_space ws \<and> x = ws @ CHR ''|'' # rest)"

definition row_end :: "string \<Rightarrow> bool" where
  "row_end x = (\<exists>rest ws. all_space ws \<and> x = rest @ CHR ''|'' # ws)"

text \<open>A text without whitespace and pipes, and not empty.\<close>

definition solid :: "string \<Rightarrow> bool" where
  "solid sub = (sub \<noteq> [] \<and> (\<forall>c \<in> set sub. \<not> is_space c \<and> c \<noteq> CHR ''|''))"

text \<open>A line that loses at most its closing pipe, and keeps its opening one, when a
  continuation is merged into it: it does not end with two pipes and is not a lone pipe.\<close>

definition good_line :: "string \<Rightarrow> bool" where
  "good_line l = (\<not> endswith l ''||'' \<and> lstrip l \<noteq> ''|'')"

text \<open>What stays of a row when a continuation is merged into it.\<close>

definition row_base :: "string \<Rightarrow> string" where
  "row_base row = rstrip (rstrip_chr (CHR ''|'') row)"

text \<open>A row that begins with \<open>A\<close> and a space and ends with a pipe.\<close>

definition extends :: "string \<Rightarrow> string \<Rightarrow> bool" where
  "extends A row = (\<exists>w. row = A @ CHR '' '' # w \<and> last (CHR '' '' # w) = CHR ''|'')"

text \<open>A row with an empty last cell, after a row of the same width, and a continuation.\<close>

definition narrowing_text :: string where
  "narrowing_text = ''| x | y |'' @ [CHR 0x0A] @ ''| a ||'' @ [CHR 0x0A] @ ''b|''"

section \<open>Properties of the table flattener\<close>

text \<open>
  C5. A table with no table anywhere below it, converted with \<open>preserve_tables_as_html\<close>
  off, gives exactly what the library's pipe-table converter gives for the same table.
\<close>

theorem no_nesting_uses_standard_converter:
  assumes "\<not> preserve_tables_as_html opts" and "find ''table'' el = None"
  shows "convert_table e opts el text convert_as_inline
         = std_convert_table e el text convert_as_inline"
  using assms by (simp add: convert_table_def convert_table_try_def)

theorem no_nesting_uses_standard_converter_witness:
  "\<not> preserve_tables_as_html demo_opts \<and> find ''table'' plain_table = None
   \<and> convert_table (demo_env []) demo_opts plain_table [] False = ''<std>''"
proof -
  have a: "\<not> preserve_tables_as_html demo_opts" by (simp add: demo_opts_def)
  have b: "find ''table'' plain_table = None" by code_simp
  have c: "std_convert_table (demo_env []) plain_table [] False = ''<std>''"
    by (simp add: demo_env_def)
  show ?thesis
    using a b c no_nesting_uses_standard_converter [OF a b, of "demo_env []" "[]" False] by simp
qed

subsection \<open>Auxiliary facts\<close>

lemma labelled_blocks_Nil: "labelled_blocks e opts n [] = []"
  by (simp add: labelled_blocks_def)

lemma labelled_blocks_Cons:
  "labelled_blocks e opts n (t # ts) = table_block e opts n t # labelled_blocks e opts (Suc n) ts"
  by (simp add: labelled_blocks_def upt_conv_Cons del: upt_Suc)


lemma nested_blocks_from_eq:
  "nested_blocks_from e opts n ts = (labelled_blocks e opts n ts, n + length ts)"
  by (induction ts arbitrary: n) (simp_all add: labelled_blocks_Nil labelled_blocks_Cons)

lemma process_cell_indices:
  assumes "process_cell e opts n c = Inr (t, blocks, n')"
  shows "n' = n + length (find_all [''table''] c)
         \<and> blocks = labelled_blocks e opts n (find_all [''table''] c)"
  using assms
  by (auto simp: process_cell_def Let_def nested_blocks_from_eq labelled_blocks_Nil
           split: sum.splits if_splits)










lemma demo_cell_one:
  "process_cell (demo_env demo_cells) demo_opts 1 cell_one
   = Inr (''one ([See Table 1](#table-1))'',
          labelled_blocks (demo_env demo_cells) demo_opts 1 [nested_a], 2)"
  by code_simp








text \<open>
  C4 (as amended). The reference written into a body cell with nested tables is the
  Markdown link \<open>[See Table N](#table-N)\<close> for one table and
  \<open>[See Tables N-M](#table-N)\<close> for several; it stands alone when the cell has no text of
  its own, and otherwise follows that text, after a space and in parentheses.
\<close>

theorem reference_marker_text:
  assumes "process_cell e opts n c = Inr (t, blocks, n')"
    and "find_all [''table''] c \<noteq> []"
    and "text_without_nested e c = Inr base"
  shows "t = (let k = length (find_all [''table''] c);
                  marker = (if k = 1
                            then ''[See Table '' @ str_nat n @ ''](#table-'' @ str_nat n @ '')''
                            else ''[See Tables '' @ str_nat n @ ''-'' @ str_nat (n + k - 1)
                                 @ ''](#table-'' @ str_nat n @ '')'')
              in if escape_pipes base = [] then marker
                 else escape_pipes base @ '' ('' @ marker @ '')'')"
proof -
  let ?k = "length (find_all [''table''] c)"
  from process_cell_indices [OF assms(1)] have n': "n' = n + ?k" by simp
  from assms(2) have k: "?k > 0" by simp
  have r: "reference n n' = (if ?k = 1
                            then ''[See Table '' @ str_nat n @ ''](#table-'' @ str_nat n @ '')''
                            else ''[See Tables '' @ str_nat n @ ''-'' @ str_nat (n + ?k - 1)
                                 @ ''](#table-'' @ str_nat n @ '')'')"
  proof -
    have "n = n + ?k - 1 \<longleftrightarrow> ?k = 1" using k by arith
    then show ?thesis unfolding reference_def n' by simp
  qed
  have "t = (if escape_pipes base = [] then reference n n'
             else escape_pipes base @ '' ('' @ reference n n' @ '')'')"
    using assms
    by (auto simp: process_cell_def Let_def split: sum.splits prod.splits if_splits)
  with r show ?thesis by (simp add: Let_def)
qed

theorem reference_marker_text_witness:
  "find_all [''table''] cell_one = [nested_a]
   \<and> text_without_nested (demo_env demo_cells) cell_one = Inr ''one''
   \<and> ''one ([See Table 1](#table-1))''
      = ''one'' @ '' ('' @ ''[See Table '' @ str_nat 1 @ ''](#table-'' @ str_nat 1 @ '')'' @ '')''"
proof -
  have t: "find_all [''table''] cell_one = [nested_a]" by code_simp
  have ne: "find_all [''table''] cell_one \<noteq> []" by code_simp
  have b: "text_without_nested (demo_env demo_cells) cell_one = Inr ''one''" by code_simp
  have e: "escape_pipes ''one'' = ''one''" by code_simp
  from reference_marker_text [OF demo_cell_one ne b] t b e show ?thesis by (simp add: Let_def)
qed

theorem reference_marker_is_a_link:
  "map_sum id fst (process_cell (demo_env demo_cells) demo_opts 1 cell_two)
     = Inr ''[See Tables 1-2](#table-1)''
   \<and> \<not> contains ''[See Tables 1-2](#table-1)'' ''(See Tables 1-2)''"
  by code_simp



section \<open>Properties of the sanitizer and of images\<close>













section \<open>Properties of the table-row repair pass\<close>

lemma absorb_suffix: "\<exists>cs. ls = cs @ snd (absorb r ls)"
proof (induction ls arbitrary: r)
  case Nil
  then show ?case by simp
next
  case (Cons l ls)
  show ?case
  proof (cases "stops r (strip l)")
    case True
    then show ?thesis by simp
  next
    case False
    from Cons.IH [of "merge_continuation r (strip l)"] obtain cs
      where "ls = cs @ snd (absorb (merge_continuation r (strip l)) ls)" by blast
    with False have "l # ls = (l # cs) @ snd (absorb r (l # ls))" by simp
    then show ?thesis by blast
  qed
qed

lemma fix_lines_segments:
  "\<exists>segs. concat (map fst segs) = ls \<and> map snd segs = fix_lines ls
     \<and> (\<forall>(grp, out) \<in> set segs. grp \<noteq> [] \<and> (\<not> is_table_row (hd grp) \<longrightarrow> grp = [out]))"
proof (induction ls rule: fix_lines.induct)
  case 1
  show ?case by (rule exI [of _ "[]"]) simp
next
  case (2 line ls)
  show ?case
  proof (cases "is_table_row line")
    case True
    from 2(1) [OF True] obtain segs where
      s: "concat (map fst segs) = snd (absorb line ls)" "map snd segs = fix_lines (snd (absorb line ls))"
         "\<forall>(grp, out) \<in> set segs. grp \<noteq> [] \<and> (\<not> is_table_row (hd grp) \<longrightarrow> grp = [out])"
      by blast
    from absorb_suffix [of ls line] obtain cs where cs: "ls = cs @ snd (absorb line ls)" by blast
    let ?segs = "(line # cs, clean_table_row (fst (absorb line ls))) # segs"
    have "concat (map fst ?segs) = line # ls" using s(1) cs by simp
    moreover have "map snd ?segs = fix_lines (line # ls)" using s(2) True by simp
    moreover have "\<forall>(grp, out) \<in> set ?segs. grp \<noteq> [] \<and> (\<not> is_table_row (hd grp) \<longrightarrow> grp = [out])"
      using s(3) True by simp
    ultimately show ?thesis by blast
  next
    case False
    from 2(2) [OF False] obtain segs where
      s: "concat (map fst segs) = ls" "map snd segs = fix_lines ls"
         "\<forall>(grp, out) \<in> set segs. grp \<noteq> [] \<and> (\<not> is_table_row (hd grp) \<longrightarrow> grp = [out])"
      by blast
    let ?segs = "([line], line) # segs"
    have "concat (map fst ?segs) = line # ls" using s(1) by simp
    moreover have "map snd ?segs = fix_lines (line # ls)" using s(2) False by simp
    moreover have "\<forall>(grp, out) \<in> set ?segs. grp \<noteq> [] \<and> (\<not> is_table_row (hd grp) \<longrightarrow> grp = [out])"
      using s(3) by simp
    ultimately show ?thesis by blast
  qed
qed

text \<open>
  C10. The lines of the text fall into consecutive groups, each giving one line of the
  repaired text, in order. A group that starts with a line that is not a table row is
  that line alone, and its output is the line itself; every other group is a table row
  with the continuation lines absorbed into it. So only table rows and their absorbed
  continuation lines are changed or removed.
\<close>

theorem non_row_lines_unchanged:
  "\<exists>segs. concat (map fst segs) = split_chr (CHR 0x0A) markdown_content
     \<and> fix_markdown_tables markdown_content = join [CHR 0x0A] (map snd segs)
     \<and> (\<forall>(grp, out) \<in> set segs. grp \<noteq> [] \<and> (\<not> is_table_row (hd grp) \<longrightarrow> grp = [out]))"
proof -
  from fix_lines_segments [of "split_chr (CHR 0x0A) markdown_content"] obtain segs where
    s: "concat (map fst segs) = split_chr (CHR 0x0A) markdown_content"
       "map snd segs = fix_lines (split_chr (CHR 0x0A) markdown_content)"
       "\<forall>(grp, out) \<in> set segs. grp \<noteq> [] \<and> (\<not> is_table_row (hd grp) \<longrightarrow> grp = [out])"
    by blast
  from s(2) have "fix_markdown_tables markdown_content = join [CHR 0x0A] (map snd segs)"
    by (simp add: fix_markdown_tables_def)
  with s(1) s(3) show ?thesis by blast
qed

theorem non_row_lines_unchanged_witness:
  "\<exists>segs. concat (map fst segs) = [''intro'', ''| a  |'', ''b | c'', ''outro'']
     \<and> join [CHR 0x0A] (map snd segs)
         = ''intro'' @ [CHR 0x0A] @ ''| a b | c |'' @ [CHR 0x0A] @ ''outro''"
proof -
  have a: "split_chr (CHR 0x0A) broken_row_text = [''intro'', ''| a  |'', ''b | c'', ''outro'']"
    by code_simp
  have b: "fix_markdown_tables broken_row_text
           = ''intro'' @ [CHR 0x0A] @ ''| a b | c |'' @ [CHR 0x0A] @ ''outro''"
    by code_simp
  from non_row_lines_unchanged [of broken_row_text] obtain segs where
    s: "concat (map fst segs) = split_chr (CHR 0x0A) broken_row_text"
       "fix_markdown_tables broken_row_text = join [CHR 0x0A] (map snd segs)"
    by blast
  have "concat (map fst segs) = [''intro'', ''| a  |'', ''b | c'', ''outro'']"
    using s(1) a by (rule trans)
  moreover have "join [CHR 0x0A] (map snd segs)
         = ''intro'' @ [CHR 0x0A] @ ''| a b | c |'' @ [CHR 0x0A] @ ''outro''"
    using s(2) [symmetric] b by (rule trans)
  ultimately show ?thesis by blast
qed

subsection \<open>Repairing twice\<close>

lemma pipe_not_space [simp]: "\<not> is_space (CHR ''|'')"
  by (simp add: is_space_def)

lemma blank_is_space [simp]: "is_space (CHR '' '')"
  by (simp add: is_space_def)

lemma all_space_simps [simp]:
  "all_space []" "all_space (c # s) = (is_space c \<and> all_space s)"
  "all_space (s @ t) = (all_space s \<and> all_space t)"
  by (auto simp: all_space_def)

lemma lstrip_simps [simp]:
  "lstrip [] = []" "lstrip (c # s) = (if is_space c then lstrip s else c # s)"
  by (simp_all add: lstrip_def)

lemma lstrip_all_space: "all_space ws \<Longrightarrow> lstrip (ws @ s) = lstrip s"
  by (induction ws) simp_all

lemma rstrip_Nil [simp]: "rstrip [] = []"
  by (simp add: rstrip_def)

lemma rstrip_snoc [simp]: "rstrip (s @ [c]) = (if is_space c then rstrip s else s @ [c])"
  by (simp add: rstrip_def)

lemma rstrip_all_space: "all_space ws \<Longrightarrow> rstrip (s @ ws) = rstrip s"
proof (induction ws rule: rev_induct)
  case Nil
  then show ?case by simp
next
  case (snoc c ws)
  then show ?case using rstrip_snoc [of "s @ ws" c] by simp
qed

lemma rstrip_keep: "t \<noteq> [] \<Longrightarrow> \<not> is_space (last t) \<Longrightarrow> rstrip (s @ t) = s @ t"
  by (cases t rule: rev_cases) (simp_all add: rstrip_snoc [of "s @ butlast t" "last t", simplified] flip: append_assoc)

lemma rstrip_decomp: "\<exists>ws. all_space ws \<and> s = rstrip s @ ws \<and> (rstrip s = [] \<or> \<not> is_space (last (rstrip s)))"
proof (induction s rule: rev_induct)
  case Nil
  then show ?case by simp
next
  case (snoc c s)
  then obtain ws where ws: "all_space ws" "s = rstrip s @ ws" by blast
  show ?case
  proof (cases "is_space c")
    case True
    with ws have "all_space (ws @ [c])" "s @ [c] = rstrip (s @ [c]) @ (ws @ [c])" by simp_all
    with snoc True show ?thesis by (metis rstrip_snoc)
  next
    case False
    then show ?thesis by (intro exI [of _ "[]"]) simp
  qed
qed

lemma lstrip_decomp: "\<exists>ws. all_space ws \<and> s = ws @ lstrip s \<and> (lstrip s = [] \<or> \<not> is_space (hd (lstrip s)))"
proof (induction s)
  case Nil
  then show ?case by simp
next
  case (Cons c s)
  then obtain ws where ws: "all_space ws" "s = ws @ lstrip s" "lstrip s = [] \<or> \<not> is_space (hd (lstrip s))" by blast
  show ?case
  proof (cases "is_space c")
    case True
    with ws show ?thesis by (intro exI [of _ "c # ws"]) auto
  next
    case False
    then show ?thesis by (intro exI [of _ "[]"]) simp
  qed
qed

lemma set_lstrip: "set (lstrip s) \<subseteq> set s"
  by (simp add: lstrip_def set_dropWhileD subsetI)

lemma set_rstrip: "set (rstrip s) \<subseteq> set s"
  unfolding rstrip_def using set_dropWhileD [of _ is_space "rev s"] by auto

lemma set_strip: "set (strip s) \<subseteq> set s"
  unfolding strip_def using set_lstrip set_rstrip by blast

lemma set_rstrip_chr: "set (rstrip_chr c s) \<subseteq> set s"
  unfolding rstrip_chr_def using set_dropWhileD [of _ "\<lambda>x. x = c" "rev s"] by auto

lemma split_chr_nonempty [simp]: "split_chr c s \<noteq> []"
  by (induction s) (auto split: list.splits)

lemma join_Cons: "ps \<noteq> [] \<Longrightarrow> join sep (p # ps) = p @ sep @ join sep ps"
  by (cases ps) simp_all

lemma join_split: "join [c] (split_chr c s) = s"
proof (induction s)
  case Nil
  then show ?case by simp
next
  case (Cons x s)
  show ?case
  proof (cases "x = c")
    case True
    with Cons show ?thesis by (simp add: join_Cons)
  next
    case False
    obtain p ps where ps: "split_chr c s = p # ps" by (cases "split_chr c s") simp_all
    with Cons False show ?thesis by (cases ps) simp_all
  qed
qed

lemma split_parts_free: "p \<in> set (split_chr c s) \<Longrightarrow> c \<notin> set p"
  by (induction s arbitrary: p) (auto split: list.splits if_splits)

lemma split_free: "c \<notin> set s \<Longrightarrow> split_chr c s = [s]"
  by (induction s) auto

lemma split_append_sep: "c \<notin> set a \<Longrightarrow> split_chr c (a @ c # s) = a # split_chr c s"
  by (induction a) auto

lemma split_join: "ps \<noteq> [] \<Longrightarrow> \<forall>p \<in> set ps. c \<notin> set p \<Longrightarrow> split_chr c (join [c] ps) = ps"
proof (induction ps)
  case Nil
  then show ?case by simp
next
  case (Cons p ps)
  show ?case
  proof (cases ps)
    case Nil
    with Cons.prems show ?thesis by (simp add: split_free)
  next
    case (Cons q qs)
    with Cons.prems Cons.IH show ?thesis by (simp add: split_append_sep)
  qed
qed

lemma length_split: "length (split_chr c s) = Suc (count_chr c s)"
  by (induction s) (auto simp: count_chr_def split: list.splits)

lemma count_chr_append [simp]: "count_chr c (s @ t) = count_chr c s + count_chr c t"
  by (simp add: count_chr_def)

lemma count_chr_Cons [simp]: "count_chr c (x # s) = (if x = c then 1 else 0) + count_chr c s"
  by (simp add: count_chr_def)

lemma count_chr_Nil [simp]: "count_chr c [] = 0"
  by (simp add: count_chr_def)

lemma count_chr_zero: "c \<notin> set s \<Longrightarrow> count_chr c s = 0"
  by (induction s) auto

lemma count_chr_pos: "c \<in> set s \<Longrightarrow> count_chr c s > 0"
  by (induction s) auto

lemma count_join: "\<forall>p \<in> set ps. c \<notin> set p \<Longrightarrow> count_chr c (join [c] ps) = length ps - 1"
proof (induction ps)
  case Nil
  then show ?case by simp
next
  case (Cons p ps)
  then show ?case by (cases ps) (simp_all add: count_chr_zero)
qed

lemma set_join: "set (join sep ps) \<subseteq> set sep \<union> \<Union> (set ` set ps)"
proof (induction ps)
  case Nil
  then show ?case by simp
next
  case (Cons p ps)
  then show ?case by (cases ps) auto
qed

lemma collapse_ws_Cons:
  "collapse_ws (c # s) =
     (if s \<noteq> [] \<and> is_space c \<and> is_space (hd s) then collapse_ws s
      else (if is_space c then CHR '' '' else c) # collapse_ws s)"
  by (cases s) simp_all

lemma set_collapse_ws: "set (collapse_ws s) \<subseteq> insert (CHR '' '') (set s)"
  by (induction s rule: collapse_ws.induct) auto

lemma collapse_ws_spaces: "c \<in> set (collapse_ws s) \<Longrightarrow> is_space c \<Longrightarrow> c = CHR '' ''"
  by (induction s rule: collapse_ws.induct) (auto split: if_splits)

lemma collapse_ws_empty [simp]: "collapse_ws s = [] \<longleftrightarrow> s = []"
  by (induction s rule: collapse_ws.induct) auto

lemma hd_collapse_space: "s \<noteq> [] \<Longrightarrow> is_space (hd (collapse_ws s)) = is_space (hd s)"
  by (induction s rule: collapse_ws.induct) auto

lemma tidy_collapse: "tidy (collapse_ws s)"
proof (induction s rule: collapse_ws.induct)
  case 1
  then show ?case by simp
next
  case (2 c)
  then show ?case by simp
next
  case (3 c d cs)
  show ?case
  proof (cases "is_space c \<and> is_space d")
    case True
    with 3 show ?thesis by simp
  next
    case False
    obtain y ys where y: "collapse_ws (d # cs) = y # ys"
      by (cases "collapse_ws (d # cs)") simp_all
    have "is_space y = is_space d" using hd_collapse_space [of "d # cs"] y by simp
    with False 3 y show ?thesis by auto
  qed
qed

lemma collapse_tidy: "tidy s \<Longrightarrow> collapse_ws s = s"
  by (induction s rule: collapse_ws.induct) auto

lemma last_collapse: "s \<noteq> [] \<Longrightarrow> \<not> is_space (last s) \<Longrightarrow> last (collapse_ws s) = last s"
  by (induction s rule: collapse_ws.induct) auto

lemma hd_collapse: "s \<noteq> [] \<Longrightarrow> \<not> is_space (hd s) \<Longrightarrow> hd (collapse_ws s) = hd s"
  by (induction s rule: collapse_ws.induct) auto

lemma replace_chr_absent: "a \<notin> set s \<Longrightarrow> replace_chr a b s = s"
  by (induction s) (auto simp: replace_chr_def)

lemma clean_cell_eq: "clean_cell p = CHR '' '' # norm_cell p @ '' ''"
proof -
  have lf: "CHR 0x0A \<notin> set (collapse_ws (strip p))"
    using collapse_ws_spaces [of "CHR 0x0A" "strip p"] by (auto simp: is_space_def)
  have cr: "CHR 0x0D \<notin> set (collapse_ws (strip p))"
    using collapse_ws_spaces [of "CHR 0x0D" "strip p"] by (auto simp: is_space_def)
  show ?thesis
    by (simp add: clean_cell_def Let_def norm_cell_def replace_chr_absent lf cr)
qed

lemma strip_ends: "strip p = [] \<or> (\<not> is_space (hd (strip p)) \<and> \<not> is_space (last (strip p)))"
proof -
  let ?t = "lstrip p"
  from lstrip_decomp [of p] have t: "?t = [] \<or> \<not> is_space (hd ?t)" by blast
  from rstrip_decomp [of ?t] obtain ws where
    ws: "all_space ws" "?t = rstrip ?t @ ws" "rstrip ?t = [] \<or> \<not> is_space (last (rstrip ?t))"
    by blast
  show ?thesis
  proof (cases "rstrip ?t = []")
    case True
    then show ?thesis by (simp add: strip_def)
  next
    case False
    then have "hd ?t = hd (rstrip ?t)" using ws(2) by (metis hd_append2)
    moreover from False ws(2) have "?t \<noteq> []" by auto
    ultimately show ?thesis using t ws(3) False by (simp add: strip_def)
  qed
qed

lemma strip_id: "s = [] \<or> (\<not> is_space (hd s) \<and> \<not> is_space (last s)) \<Longrightarrow> strip s = s"
proof (cases s)
  case Nil
  then show ?thesis by (simp add: strip_def)
next
  case (Cons c cs)
  assume "s = [] \<or> (\<not> is_space (hd s) \<and> \<not> is_space (last s))"
  with Cons have h: "\<not> is_space c" "\<not> is_space (last s)" by auto
  from h(1) Cons have "lstrip s = s" by simp
  moreover from h(2) Cons have "rstrip s = s" using rstrip_keep [of s "[]"] by simp
  ultimately show ?thesis by (simp add: strip_def)
qed

lemma strip_strip [simp]: "strip (strip s) = strip s"
  using strip_ends [of s] by (rule strip_id)

lemma strip_padded:
  assumes "y = [] \<or> (\<not> is_space (hd y) \<and> \<not> is_space (last y))"
  shows "strip (CHR '' '' # y @ '' '') = y"
proof -
  have "lstrip (CHR '' '' # y @ '' '') = lstrip (y @ '' '')" by simp
  show ?thesis
  proof (cases "y = []")
    case True
    then show ?thesis by (simp add: strip_def)
  next
    case False
    with assms have h: "\<not> is_space (hd y)" "\<not> is_space (last y)" by auto
    from False h(1) have "lstrip (y @ '' '') = y @ '' ''" by (cases y) simp_all
    moreover have "rstrip (y @ '' '') = rstrip y" by simp
    moreover from False h(2) have "rstrip y = y" using rstrip_keep [of y "[]"] by simp
    ultimately show ?thesis by (simp add: strip_def)
  qed
qed

lemma norm_cell_ends:
  "norm_cell p = [] \<or> (\<not> is_space (hd (norm_cell p)) \<and> \<not> is_space (last (norm_cell p)))"
  using strip_ends [of p] hd_collapse [of "strip p"] last_collapse [of "strip p"]
  by (auto simp: norm_cell_def)

lemma norm_cell_clean: "norm_cell (clean_cell p) = norm_cell p"
proof -
  have "strip (clean_cell p) = norm_cell p"
    unfolding clean_cell_eq using norm_cell_ends by (rule strip_padded)
  then have "norm_cell (clean_cell p) = collapse_ws (norm_cell p)" by (simp add: norm_cell_def)
  also have "\<dots> = norm_cell p" unfolding norm_cell_def by (rule collapse_tidy) (rule tidy_collapse)
  finally show ?thesis .
qed

lemma clean_cell_idem: "clean_cell (clean_cell p) = clean_cell p"
  by (simp add: clean_cell_eq [of "clean_cell p"] norm_cell_clean) (simp add: clean_cell_eq)

lemma set_norm_cell: "set (norm_cell p) \<subseteq> insert (CHR '' '') (set p)"
  unfolding norm_cell_def using set_collapse_ws [of "strip p"] set_strip [of p] by auto

lemma set_clean_cell: "set (clean_cell p) \<subseteq> insert (CHR '' '') (set p)"
  unfolding clean_cell_eq using set_norm_cell [of p] by auto

lemma strip_empty_all_space: "strip s = [] \<Longrightarrow> all_space s"
proof -
  assume e: "strip s = []"
  from lstrip_decomp [of s] obtain w1 where w1: "all_space w1" "s = w1 @ lstrip s" by blast
  from rstrip_decomp [of "lstrip s"] obtain w2 where
    w2: "all_space w2" "lstrip s = rstrip (lstrip s) @ w2" by blast
  from e w2 have "lstrip s = w2" by (simp add: strip_def)
  with w1 w2(1) show ?thesis by (metis all_space_simps(3))
qed

lemma pipe_strip_nonempty: "CHR ''|'' \<in> set r \<Longrightarrow> strip r \<noteq> []"
  by (metis all_space_def pipe_not_space strip_empty_all_space)

lemma enumerate_shape:
  "map (\<lambda>(i, part). if i = 0 \<or> i = length (p0 # mid @ [pn]) - 1 then part else f part)
       (zip [0..<length (p0 # mid @ [pn])] (p0 # mid @ [pn]))
   = p0 # map f mid @ [pn]"
  by (rule nth_equalityI) (auto simp: nth_Cons' nth_append)

lemma two_parts: "length ps \<ge> 2 \<Longrightarrow> \<exists>p0 mid pn. ps = p0 # mid @ [pn]"
proof -
  assume "length ps \<ge> 2"
  then obtain p0 qs where a: "ps = p0 # qs" "qs \<noteq> []" by (cases ps) (auto simp: Suc_le_eq)
  then have "qs = butlast qs @ [last qs]" by simp
  with a show ?thesis by metis
qed

lemma clean_shape:
  assumes "CHR ''|'' \<in> set r"
  shows "\<exists>p0 mid pn. split_chr (CHR ''|'') r = p0 # mid @ [pn]
           \<and> clean_table_row r = join ''|'' (p0 # map clean_cell mid @ [pn])"
proof -
  from assms have "length (split_chr (CHR ''|'') r) \<ge> 2"
    using count_chr_pos [of "CHR ''|''" r] by (simp add: length_split)
  from two_parts [OF this] obtain p0 mid pn where ps: "split_chr (CHR ''|'') r = p0 # mid @ [pn]"
    by blast
  have "clean_table_row r = join ''|'' (p0 # map clean_cell mid @ [pn])"
    using assms pipe_strip_nonempty [OF assms]
    unfolding clean_table_row_def Let_def ps enumerate_shape by simp
  with ps show ?thesis by blast
qed

lemma clean_no_pipe: "CHR ''|'' \<notin> set r \<Longrightarrow> clean_table_row r = r"
  by (simp add: clean_table_row_def)

lemma clean_cell_free: "CHR ''|'' \<notin> set p \<Longrightarrow> CHR ''|'' \<notin> set (clean_cell p)"
  using set_clean_cell [of p] by auto

lemma pipe_in_join: "length ps \<ge> 2 \<Longrightarrow> CHR ''|'' \<in> set (join ''|'' ps)"
proof -
  assume "length ps \<ge> 2"
  then obtain p q qs where "ps = p # q # qs" by (cases ps; cases "tl ps") auto
  then show ?thesis by simp
qed

lemma clean_parts_free:
  assumes "split_chr (CHR ''|'') r = p0 # mid @ [pn]"
  shows "\<forall>p \<in> set (p0 # map clean_cell mid @ [pn]). CHR ''|'' \<notin> set p"
proof -
  have "\<forall>p \<in> set (p0 # mid @ [pn]). CHR ''|'' \<notin> set p"
    using split_parts_free [of _ "CHR ''|''" r] assms by metis
  then show ?thesis using clean_cell_free by auto
qed

lemma split_clean:
  assumes "split_chr (CHR ''|'') r = p0 # mid @ [pn]"
  shows "split_chr (CHR ''|'') (join ''|'' (p0 # map clean_cell mid @ [pn]))
         = p0 # map clean_cell mid @ [pn]"
  using split_join [of "p0 # map clean_cell mid @ [pn]" "CHR ''|''"] clean_parts_free [OF assms]
  by simp

lemma clean_idem: "clean_table_row (clean_table_row r) = clean_table_row r"
proof (cases "CHR ''|'' \<in> set r")
  case False
  then show ?thesis by (simp add: clean_no_pipe)
next
  case True
  from clean_shape [OF True] obtain p0 mid pn where
    ps: "split_chr (CHR ''|'') r = p0 # mid @ [pn]" and
    c: "clean_table_row r = join ''|'' (p0 # map clean_cell mid @ [pn])" by blast
  let ?c = "clean_table_row r"
  have pin: "CHR ''|'' \<in> set ?c" unfolding c by (rule pipe_in_join) simp
  from clean_shape [OF pin] obtain q0 mid' qn where
    qs: "split_chr (CHR ''|'') ?c = q0 # mid' @ [qn]" and
    c2: "clean_table_row ?c = join ''|'' (q0 # map clean_cell mid' @ [qn])" by blast
  from split_clean [OF ps] c have "split_chr (CHR ''|'') ?c = p0 # map clean_cell mid @ [pn]" by simp
  with qs have "q0 = p0" "mid' @ [qn] = map clean_cell mid @ [pn]" by simp_all
  then have "q0 = p0" "mid' = map clean_cell mid" "qn = pn" by simp_all
  with c2 c show ?thesis by (simp add: clean_cell_idem comp_def)
qed

lemma count_clean: "count_chr (CHR ''|'') (clean_table_row r) = count_chr (CHR ''|'') r"
proof (cases "CHR ''|'' \<in> set r")
  case False
  then show ?thesis by (simp add: clean_no_pipe)
next
  case True
  from clean_shape [OF True] obtain p0 mid pn where
    ps: "split_chr (CHR ''|'') r = p0 # mid @ [pn]" and
    c: "clean_table_row r = join ''|'' (p0 # map clean_cell mid @ [pn])" by blast
  have "count_chr (CHR ''|'') (clean_table_row r) = length (p0 # map clean_cell mid @ [pn]) - 1"
    unfolding c using count_join [of "p0 # map clean_cell mid @ [pn]" "CHR ''|''"]
      clean_parts_free [OF ps] by simp
  also have "\<dots> = length (split_chr (CHR ''|'') r) - 1" by (simp add: ps)
  also have "\<dots> = count_chr (CHR ''|'') r" by (simp add: length_split)
  finally show ?thesis .
qed

lemma pipe_clean: "CHR ''|'' \<in> set (clean_table_row r) \<longleftrightarrow> CHR ''|'' \<in> set r"
  using count_clean [of r] count_chr_pos [of "CHR ''|''"] count_chr_zero [of "CHR ''|''"]
  by (metis less_numeral_extra(3))

lemma set_clean: "set (clean_table_row r) \<subseteq> insert (CHR '' '') (set r)"
proof (cases "CHR ''|'' \<in> set r")
  case False
  then show ?thesis by (auto simp: clean_no_pipe)
next
  case True
  from clean_shape [OF True] obtain p0 mid pn where
    ps: "split_chr (CHR ''|'') r = p0 # mid @ [pn]" and
    c: "clean_table_row r = join ''|'' (p0 # map clean_cell mid @ [pn])" by blast
  have parts: "\<forall>p \<in> set (p0 # mid @ [pn]). set p \<subseteq> set r"
  proof
    fix p assume "p \<in> set (p0 # mid @ [pn])"
    then have "p \<in> set (split_chr (CHR ''|'') r)" by (simp add: ps)
    then obtain a b where "split_chr (CHR ''|'') r = a @ p # b" by (meson split_list)
    then have "join ''|'' (a @ p # b) = r" using join_split [of "CHR ''|''" r] by simp
    moreover have "set p \<subseteq> set (join ''|'' (a @ p # b))"
    proof (induction a)
      case Nil
      then show ?case by (cases b) auto
    next
      case (Cons x a)
      then show ?case by (cases a) auto
    qed
    ultimately show "set p \<subseteq> set r" by simp
  qed
  have "set (clean_table_row r) \<subseteq> set ''|'' \<union> \<Union> (set ` set (p0 # map clean_cell mid @ [pn]))"
    unfolding c by (rule set_join)
  moreover have "\<Union> (set ` set (p0 # map clean_cell mid @ [pn])) \<subseteq> insert (CHR '' '') (set r)"
    using parts set_clean_cell by fastforce
  ultimately show ?thesis using True by (simp add: subset_iff) blast
qed

lemma strip_decomp: "\<exists>w1 w2. all_space w1 \<and> all_space w2 \<and> x = w1 @ strip x @ w2"
proof -
  from lstrip_decomp [of x] obtain w1 where w1: "all_space w1" "x = w1 @ lstrip x" by blast
  from rstrip_decomp [of "lstrip x"] obtain w2 where
    w2: "all_space w2" "lstrip x = rstrip (lstrip x) @ w2" by blast
  from w1 w2 have "x = w1 @ strip x @ w2" by (simp add: strip_def)
  with w1(1) w2(1) show ?thesis by blast
qed

lemma startswith_pipe: "startswith s ''|'' \<longleftrightarrow> (\<exists>t. s = CHR ''|'' # t)"
  by (cases s) (auto simp: startswith_def)

lemma endswith_pipe: "endswith s ''|'' \<longleftrightarrow> (\<exists>t. s = t @ ''|'')"
  by (cases s rule: rev_cases) (auto simp: endswith_def)

lemma lstrip_append: "lstrip (a @ s) = (if all_space a then lstrip s else lstrip a @ s)"
  by (induction a) auto

lemma rstrip_append: "rstrip (s @ b) = (if all_space b then rstrip s else s @ rstrip b)"
proof (induction b rule: rev_induct)
  case Nil
  then show ?case by simp
next
  case (snoc c b)
  show ?case using snoc rstrip_snoc [of "s @ b" c] by auto
qed

lemma strip_wrapped:
  assumes "all_space w1" "all_space w2" "s \<noteq> []" "\<not> is_space (hd s)" "\<not> is_space (last s)"
  shows "strip (w1 @ s @ w2) = s"
proof -
  from assms(3,4) have "lstrip (s @ w2) = s @ w2" by (cases s) simp_all
  with assms(1) have "lstrip (w1 @ s @ w2) = s @ w2" by (simp add: lstrip_append)
  moreover have "rstrip (s @ w2) = s"
    using assms(2,3,5) rstrip_keep [of s "[]"] by (simp add: rstrip_append)
  ultimately show ?thesis by (simp add: strip_def)
qed

lemma row_start_iff: "startswith (strip x) ''|'' \<longleftrightarrow> row_start x"
proof
  assume "startswith (strip x) ''|''"
  then obtain t where t: "strip x = CHR ''|'' # t" by (auto simp: startswith_pipe)
  from strip_decomp [of x] obtain w1 w2 where "all_space w1" "x = w1 @ strip x @ w2" by blast
  with t show "row_start x" unfolding row_start_def by (intro exI [of _ w1] exI [of _ "t @ w2"]) simp
next
  assume "row_start x"
  then obtain ws rest where w: "all_space ws" "x = ws @ CHR ''|'' # rest" by (auto simp: row_start_def)
  from rstrip_decomp [of "CHR ''|'' # rest"] obtain w2 where
    w2: "all_space w2" "CHR ''|'' # rest = rstrip (CHR ''|'' # rest) @ w2" by blast
  have "rstrip (CHR ''|'' # rest) \<noteq> []"
  proof
    assume "rstrip (CHR ''|'' # rest) = []"
    with w2 have "all_space (CHR ''|'' # rest)" by simp
    then show False by simp
  qed
  with w2(2) obtain t where "rstrip (CHR ''|'' # rest) = CHR ''|'' # t"
    by (cases "rstrip (CHR ''|'' # rest)") auto
  moreover from w have "lstrip x = CHR ''|'' # rest" by (simp add: lstrip_append)
  ultimately show "startswith (strip x) ''|''" by (simp add: strip_def startswith_pipe)
qed

lemma row_end_iff: "endswith (strip x) ''|'' \<longleftrightarrow> row_end x"
proof
  assume "endswith (strip x) ''|''"
  then obtain t where t: "strip x = t @ ''|''" by (auto simp: endswith_pipe)
  from strip_decomp [of x] obtain w1 w2 where "all_space w2" "x = w1 @ strip x @ w2" by blast
  with t show "row_end x" unfolding row_end_def by (intro exI [of _ "w1 @ t"] exI [of _ w2]) simp
next
  assume "row_end x"
  then obtain rest ws where w: "all_space ws" "x = rest @ CHR ''|'' # ws" by (auto simp: row_end_def)
  from lstrip_decomp [of "rest @ ''|''"] obtain w1 where
    w1: "all_space w1" "rest @ ''|'' = w1 @ lstrip (rest @ ''|'')" by blast
  let ?u = "lstrip (rest @ ''|'')"
  have ne: "?u \<noteq> []"
  proof
    assume "?u = []"
    with w1 have "all_space (rest @ ''|'')" by simp
    then show False by simp
  qed
  from w1(2) ne have last: "last ?u = CHR ''|''" by (metis last_appendR last_snoc)
  from lstrip_decomp [of "rest @ ''|''"] ne have hd: "\<not> is_space (hd ?u)" by blast
  have "x = w1 @ ?u @ ws" using w(2) w1(2) by simp
  then have "strip x = ?u" using strip_wrapped [OF w1(1) w(1) ne hd] last by simp
  with ne last show "endswith (strip x) ''|''"
    unfolding endswith_pipe by (metis append_butlast_last_id)
qed

lemma is_table_row_iff: "is_table_row x \<longleftrightarrow> row_start x \<and> row_end x"
  unfolding is_table_row_def row_start_iff row_end_iff by (auto simp: row_start_def)

lemma join_snoc: "ps \<noteq> [] \<Longrightarrow> join sep (ps @ [p]) = join sep ps @ sep @ p"
proof (induction ps)
  case Nil
  then show ?case by simp
next
  case (Cons q ps)
  then show ?case by (cases ps) simp_all
qed

lemma split_append_sep_last: "c \<notin> set b \<Longrightarrow> split_chr c (a @ c # b) = split_chr c a @ [b]"
proof (induction a)
  case Nil
  then show ?case by (simp add: split_free)
next
  case (Cons x a)
  obtain p ps where ps: "split_chr c a = p # ps" by (cases "split_chr c a") simp_all
  with Cons show ?case by simp
qed

lemma all_space_free: "all_space ws \<Longrightarrow> CHR ''|'' \<notin> set ws"
  by (auto simp: all_space_def)

lemma row_start_clean: "row_start r \<Longrightarrow> row_start (clean_table_row r)"
proof -
  assume "row_start r"
  then obtain ws rest where w: "all_space ws" "r = ws @ CHR ''|'' # rest" by (auto simp: row_start_def)
  then have pin: "CHR ''|'' \<in> set r" by simp
  from clean_shape [OF pin] obtain p0 mid pn where
    ps: "split_chr (CHR ''|'') r = p0 # mid @ [pn]" and
    c: "clean_table_row r = join ''|'' (p0 # map clean_cell mid @ [pn])" by blast
  from w have "split_chr (CHR ''|'') r = ws # split_chr (CHR ''|'') rest"
    by (simp add: split_append_sep all_space_free)
  with ps have "p0 = ws" by simp
  with c have "clean_table_row r = ws @ ''|'' @ join ''|'' (map clean_cell mid @ [pn])"
    by (simp add: join_Cons)
  with w(1) show ?thesis unfolding row_start_def by auto
qed

lemma row_end_clean: "row_end r \<Longrightarrow> row_end (clean_table_row r)"
proof -
  assume "row_end r"
  then obtain rest ws where w: "all_space ws" "r = rest @ CHR ''|'' # ws" by (auto simp: row_end_def)
  then have pin: "CHR ''|'' \<in> set r" by simp
  from clean_shape [OF pin] obtain p0 mid pn where
    ps: "split_chr (CHR ''|'') r = p0 # mid @ [pn]" and
    c: "clean_table_row r = join ''|'' (p0 # map clean_cell mid @ [pn])" by blast
  from w have "split_chr (CHR ''|'') r = split_chr (CHR ''|'') rest @ [ws]"
    by (simp add: split_append_sep_last all_space_free)
  with ps have "(p0 # mid) @ [pn] = split_chr (CHR ''|'') rest @ [ws]" by simp
  then have "pn = ws" by (metis append1_eq_conv)
  moreover have "join ''|'' ((p0 # map clean_cell mid) @ [pn]) = join ''|'' (p0 # map clean_cell mid) @ ''|'' @ pn"
    by (rule join_snoc) simp
  ultimately have "clean_table_row r = join ''|'' (p0 # map clean_cell mid) @ CHR ''|'' # ws"
    using c by simp
  with w(1) show ?thesis unfolding row_end_def by blast
qed

lemma is_table_row_clean: "is_table_row r \<Longrightarrow> is_table_row (clean_table_row r)"
  by (simp add: is_table_row_iff row_start_clean row_end_clean)

lemma startswith_iff: "startswith s p \<longleftrightarrow> (\<exists>b. s = p @ b)"
  unfolding startswith_def by (metis append_eq_conv_conj append_take_drop_id)

lemma contains_iff: "contains s sub \<longleftrightarrow> (\<exists>a b. s = a @ sub @ b)"
proof (induction s)
  case Nil
  then show ?case by auto
next
  case (Cons x s)
  show ?case
  proof
    assume "contains (x # s) sub"
    then consider "startswith (x # s) sub" | "contains s sub" by auto
    then show "\<exists>a b. x # s = a @ sub @ b"
    proof cases
      case 1
      then obtain b where "x # s = sub @ b" by (auto simp: startswith_iff)
      then have "x # s = [] @ sub @ b" by simp
      then show ?thesis by blast
    next
      case 2
      with Cons obtain a b where "s = a @ sub @ b" by blast
      then have "x # s = (x # a) @ sub @ b" by simp
      then show ?thesis by blast
    qed
  next
    assume "\<exists>a b. x # s = a @ sub @ b"
    then obtain a b where ab: "x # s = a @ sub @ b" by blast
    show "contains (x # s) sub"
    proof (cases a)
      case Nil
      with ab have "startswith (x # s) sub" by (auto simp: startswith_iff)
      then show ?thesis by simp
    next
      case (Cons y a')
      with ab have "s = a' @ sub @ b" by simp
      with Cons.IH show ?thesis by auto
    qed
  qed
qed

lemma contains_append_sep:
  assumes "contains (a @ c # b) sub" and "c \<notin> set sub"
  shows "contains a sub \<or> contains b sub"
proof -
  from assms(1) obtain u v where uv: "a @ c # b = u @ sub @ v" by (auto simp: contains_iff)
  then consider w where "a = u @ w" "w @ c # b = sub @ v" | w where "a @ w = u" "c # b = w @ sub @ v"
    by (auto simp: append_eq_append_conv2)
  then show ?thesis
  proof cases
    case 1
    from 1(2) consider w2 where "w = sub @ w2" | w2 where "w @ w2 = sub" "c # b = w2 @ v" "w2 \<noteq> []"
      by (auto simp: append_eq_append_conv2) (metis append.right_neutral)
    then show ?thesis
    proof cases
      case 1
      with \<open>a = u @ w\<close> have "a = u @ sub @ w2" by simp
      then show ?thesis by (auto simp: contains_iff)
    next
      case 2
      then obtain w3 where "w2 = c # w3" by (cases w2) auto
      with 2(1) have "c \<in> set sub" by auto
      with assms(2) show ?thesis by simp
    qed
  next
    case 2
    show ?thesis
    proof (cases w)
      case Nil
      with 2(2) have "c # b = sub @ v" by simp
      moreover from assms(2) have "sub = [] \<or> hd sub \<noteq> c" by (cases sub) auto
      ultimately have "sub = []" by (cases sub) auto
      then show ?thesis by (auto simp: contains_iff)
    next
      case (Cons y w')
      with 2(2) have "b = w' @ sub @ v" by simp
      then show ?thesis by (auto simp: contains_iff)
    qed
  qed
qed

lemma contains_join:
  assumes "contains (join ''|'' ps) sub" and "solid sub"
  shows "\<exists>p \<in> set ps. contains p sub"
  using assms
proof (induction ps)
  case Nil
  then show ?case by (simp add: solid_def)
next
  case (Cons p ps)
  show ?case
  proof (cases ps)
    case Nil
    with Cons.prems show ?thesis by simp
  next
    case (Cons q qs)
    with Cons.prems(1) have "contains (p @ CHR ''|'' # join ''|'' ps) sub" by simp
    moreover from Cons.prems(2) have "CHR ''|'' \<notin> set sub" by (auto simp: solid_def)
    ultimately have "contains p sub \<or> contains (join ''|'' ps) sub" by (rule contains_append_sep)
    with Cons.IH Cons.prems(2) show ?thesis by auto
  qed
qed

lemma contains_in_join:
  assumes "p \<in> set ps" and "contains p sub"
  shows "contains (join sep ps) sub"
  using assms
proof (induction ps)
  case Nil
  then show ?case by simp
next
  case (Cons q ps)
  from Cons.prems(2) obtain a b where ab: "p = a @ sub @ b" by (auto simp: contains_iff)
  show ?case
  proof (cases "p = q")
    case True
    show ?thesis
    proof (cases ps)
      case Nil
      with True Cons.prems(2) show ?thesis by simp
    next
      case (Cons r rs)
      with True ab have "join sep (q # ps) = a @ sub @ (b @ sep @ join sep ps)" by simp
      then show ?thesis unfolding contains_iff by blast
    qed
  next
    case False
    with Cons.prems have "p \<in> set ps" by simp
    from Cons.IH [OF this Cons.prems(2)] obtain u v where uv: "join sep ps = u @ sub @ v"
      by (auto simp: contains_iff)
    from \<open>p \<in> set ps\<close> have "ps \<noteq> []" by auto
    then have "join sep (q # ps) = (q @ sep @ u) @ sub @ v" using uv by (simp add: join_Cons)
    then show ?thesis unfolding contains_iff by blast
  qed
qed

lemma collapse_solid:
  "\<forall>c \<in> set sub. \<not> is_space c \<Longrightarrow> collapse_ws (sub @ b) = sub @ collapse_ws b"
proof (induction sub)
  case Nil
  then show ?case by simp
next
  case (Cons c sub)
  then show ?case by (simp add: collapse_ws_Cons [of c "sub @ b"])
qed

lemma collapse_prefix: "\<exists>a'. collapse_ws (a @ s) = a' @ collapse_ws s"
proof (induction a)
  case Nil
  then show ?case by simp
next
  case (Cons c a)
  then obtain a' where a': "collapse_ws (a @ s) = a' @ collapse_ws s" by blast
  show ?case
    unfolding append_Cons collapse_ws_Cons [of c "a @ s"] using a'
    by (metis append_Cons)
qed

lemma contains_collapse:
  assumes "contains x sub" and "solid sub"
  shows "contains (collapse_ws x) sub"
proof -
  from assms(1) obtain a b where "x = a @ sub @ b" by (auto simp: contains_iff)
  moreover obtain a' where "collapse_ws (a @ sub @ b) = a' @ collapse_ws (sub @ b)"
    using collapse_prefix by blast
  moreover have "collapse_ws (sub @ b) = sub @ collapse_ws b"
    using assms(2) by (intro collapse_solid) (simp add: solid_def)
  ultimately show ?thesis unfolding contains_iff by metis
qed

lemma contains_strip:
  assumes "contains x sub" and "solid sub"
  shows "contains (strip x) sub"
proof -
  from assms(1) obtain a b where x: "x = a @ sub @ b" by (auto simp: contains_iff)
  from assms(2) have ne: "sub \<noteq> []" and h: "\<not> is_space (hd sub)" and l: "\<not> is_space (last sub)"
    by (auto simp: solid_def)
  from ne h have "lstrip (sub @ b) = sub @ b" by (cases sub) simp_all
  then obtain a' where a': "lstrip x = a' @ sub @ b" unfolding x lstrip_append
    by (metis append_Nil append_assoc)
  have "rstrip ((a' @ sub) @ b) = (if all_space b then rstrip (a' @ sub) else (a' @ sub) @ rstrip b)"
    by (rule rstrip_append)
  moreover have "rstrip (a' @ sub) = a' @ sub" using ne l by (rule rstrip_keep)
  ultimately obtain b' where "rstrip (a' @ sub @ b) = a' @ sub @ b'"
    by (metis append_Nil2 append_assoc)
  with a' show ?thesis unfolding contains_iff strip_def by metis
qed

lemma contains_clean_cell:
  assumes "contains p sub" and "solid sub"
  shows "contains (clean_cell p) sub"
proof -
  have "contains (norm_cell p) sub"
    unfolding norm_cell_def using assms by (intro contains_collapse contains_strip)
  then obtain a b where "norm_cell p = a @ sub @ b" by (auto simp: contains_iff)
  then have "clean_cell p = (CHR '' '' # a) @ sub @ (b @ '' '')" by (simp add: clean_cell_eq)
  then show ?thesis unfolding contains_iff by blast
qed

lemma contains_clean:
  assumes "contains r sub" and "solid sub"
  shows "contains (clean_table_row r) sub"
proof (cases "CHR ''|'' \<in> set r")
  case False
  with assms show ?thesis by (simp add: clean_no_pipe)
next
  case True
  from clean_shape [OF True] obtain p0 mid pn where
    ps: "split_chr (CHR ''|'') r = p0 # mid @ [pn]" and
    c: "clean_table_row r = join ''|'' (p0 # map clean_cell mid @ [pn])" by blast
  have "contains (join ''|'' (split_chr (CHR ''|'') r)) sub" using assms(1) by (simp add: join_split)
  from contains_join [OF this assms(2)] ps obtain p where
    p: "p \<in> set (p0 # mid @ [pn])" "contains p sub" by auto
  then consider "p = p0" | "p = pn" | "p \<in> set mid" by auto
  then have "\<exists>q \<in> set (p0 # map clean_cell mid @ [pn]). contains q sub"
  proof cases
    case 1
    with p(2) show ?thesis by auto
  next
    case 2
    with p(2) show ?thesis by auto
  next
    case 3
    then have "clean_cell p \<in> set (p0 # map clean_cell mid @ [pn])" by simp
    moreover have "contains (clean_cell p) sub" using p(2) assms(2) by (rule contains_clean_cell)
    ultimately show ?thesis by blast
  qed
  then show ?thesis unfolding c using contains_in_join by blast
qed

lemma solid_dashes: "solid ''---''"
  by (simp add: solid_def is_space_def)

lemma rstrip_chr_Nil [simp]: "rstrip_chr c [] = []"
  by (simp add: rstrip_chr_def)

lemma rstrip_chr_snoc [simp]: "rstrip_chr c (s @ [x]) = (if x = c then rstrip_chr c s else s @ [x])"
  by (simp add: rstrip_chr_def)

lemma rstrip_chr_append:
  "rstrip_chr c (s @ t) = (if set t \<subseteq> {c} then rstrip_chr c s else s @ rstrip_chr c t)"
proof (induction t rule: rev_induct)
  case Nil
  then show ?case by simp
next
  case (snoc x t)
  show ?case using snoc rstrip_chr_snoc [of c "s @ t" x] by auto
qed

lemma rstrip_chr_decomp:
  "\<exists>n. x = rstrip_chr c x @ replicate n c"
proof (induction x rule: rev_induct)
  case Nil
  then show ?case by simp
next
  case (snoc y x)
  then obtain n where n: "x = rstrip_chr c x @ replicate n c" by blast
  show ?case
  proof (cases "y = c")
    case True
    from n have "x @ [c] = (rstrip_chr c x @ replicate n c) @ [c]"
      by (rule arg_cong [where f = "\<lambda>z. z @ [c]"])
    also have "\<dots> = rstrip_chr c x @ replicate (Suc n) c"
      by (simp add: replicate_append_same)
    finally have e: "x @ [c] = rstrip_chr c x @ replicate (Suc n) c" .
    have r: "rstrip_chr c (x @ [c]) = rstrip_chr c x" by simp
    have "x @ [y] = rstrip_chr c (x @ [y]) @ replicate (Suc n) c"
      unfolding True r by (rule e)
    then show ?thesis by blast
  next
    case False
    then have "x @ [y] = rstrip_chr c (x @ [y]) @ replicate 0 c" by simp
    then show ?thesis by blast
  qed
qed

lemma replicate_two: "replicate m c @ [c, c] = c # c # replicate m c"
  by (induction m) simp_all

lemma endswith_iff: "endswith s p \<longleftrightarrow> (\<exists>a. s = a @ p)"
proof -
  have "endswith s p \<longleftrightarrow> startswith (rev s) (rev p)" by (simp add: endswith_def startswith_def)
  also have "\<dots> \<longleftrightarrow> (\<exists>b. rev s = rev p @ b)" by (rule startswith_iff)
  also have "\<dots> \<longleftrightarrow> (\<exists>a. s = a @ p)"
    by (metis rev_append rev_rev_ident)
  finally show ?thesis .
qed

lemma good_one_pipe:
  assumes "good_line x"
  shows "\<exists>n. n \<le> 1 \<and> x = rstrip_chr (CHR ''|'') x @ replicate n (CHR ''|'')"
proof -
  from rstrip_chr_decomp [of x "CHR ''|''"] obtain n where
    n: "x = rstrip_chr (CHR ''|'') x @ replicate n (CHR ''|'')" by blast
  have "n \<le> 1"
  proof (rule ccontr)
    assume "\<not> n \<le> 1"
    then have "n = (n - 2) + 2" by simp
    then obtain m where "n = m + 2" ..
    then have "replicate n (CHR ''|'') = replicate m (CHR ''|'') @ ''||''"
      by (simp add: replicate_add numeral_2_eq_2 replicate_two)
    with n have "x = (rstrip_chr (CHR ''|'') x @ replicate m (CHR ''|'')) @ ''||''" by simp
    then have "endswith x ''||''" unfolding endswith_iff by blast
    with assms show False by (simp add: good_line_def)
  qed
  with n show ?thesis by blast
qed

lemma count_rstrip: "count_chr (CHR ''|'') (rstrip x) = count_chr (CHR ''|'') x"
proof -
  from rstrip_decomp [of x] obtain ws where "all_space ws" "x = rstrip x @ ws" by blast
  then have "count_chr (CHR ''|'') x = count_chr (CHR ''|'') (rstrip x) + count_chr (CHR ''|'') ws"
    by (metis count_chr_append)
  moreover have "count_chr (CHR ''|'') ws = 0"
    using \<open>all_space ws\<close> by (intro count_chr_zero all_space_free)
  ultimately show ?thesis by simp
qed

lemma count_lstrip: "count_chr (CHR ''|'') (lstrip x) = count_chr (CHR ''|'') x"
proof -
  from lstrip_decomp [of x] obtain ws where "all_space ws" "x = ws @ lstrip x" by blast
  then have "count_chr (CHR ''|'') x = count_chr (CHR ''|'') ws + count_chr (CHR ''|'') (lstrip x)"
    by (metis count_chr_append)
  moreover have "count_chr (CHR ''|'') ws = 0"
    using \<open>all_space ws\<close> by (intro count_chr_zero all_space_free)
  ultimately show ?thesis by simp
qed

lemma count_strip: "count_chr (CHR ''|'') (strip x) = count_chr (CHR ''|'') x"
  by (simp add: strip_def count_rstrip count_lstrip)

lemma count_replicate: "count_chr c (replicate n c) = n"
  by (induction n) simp_all

lemma count_base:
  assumes "good_line x"
  shows "count_chr (CHR ''|'') x \<le> Suc (count_chr (CHR ''|'') (row_base x))"
proof -
  from good_one_pipe [OF assms] obtain n where
    n: "n \<le> 1" "x = rstrip_chr (CHR ''|'') x @ replicate n (CHR ''|'')" by blast
  have "count_chr (CHR ''|'') x = count_chr (CHR ''|'') (rstrip_chr (CHR ''|'') x) + n"
    using n(2) by (metis count_chr_append count_replicate)
  with n(1) show ?thesis by (simp add: row_base_def count_rstrip)
qed

lemma rstrip_rstrip [simp]: "rstrip (rstrip x) = rstrip x"
proof -
  show ?thesis
  proof (cases "rstrip x = []")
    case True
    then show ?thesis by simp
  next
    case False
    with rstrip_decomp [of x] have "\<not> is_space (last (rstrip x))" by blast
    with False show ?thesis using rstrip_keep [of "rstrip x" "[]"] by simp
  qed
qed

lemma rstrip_base [simp]: "rstrip (row_base x) = row_base x"
  by (simp add: row_base_def)

lemma contains_rstrip:
  assumes "contains x sub" and "solid sub"
  shows "contains (rstrip x) sub"
proof -
  from assms(1) obtain a b where x: "x = (a @ sub) @ b" by (auto simp: contains_iff)
  from assms(2) have ne: "sub \<noteq> []" and l: "\<not> is_space (last sub)" by (auto simp: solid_def)
  have "rstrip (a @ sub) = a @ sub" using ne l by (rule rstrip_keep)
  then have "rstrip x = a @ sub @ (if all_space b then [] else rstrip b)"
    unfolding x rstrip_append by simp
  then obtain b' where "rstrip x = a @ sub @ b'" ..
  then show ?thesis unfolding contains_iff by blast
qed

lemma contains_rstrip_chr:
  assumes "contains x sub" and "solid sub"
  shows "contains (rstrip_chr (CHR ''|'') x) sub"
proof -
  from assms(1) obtain a b where x: "x = (a @ sub) @ b" by (auto simp: contains_iff)
  from assms(2) have ne: "sub \<noteq> []" and l: "last sub \<noteq> CHR ''|''" by (auto simp: solid_def)
  have "rstrip_chr (CHR ''|'') (a @ sub) = a @ sub"
    using ne l rstrip_chr_snoc [of "CHR ''|''" "a @ butlast sub" "last sub"] by simp
  then have "rstrip_chr (CHR ''|'') x = a @ sub @ (if set b \<subseteq> {CHR ''|''} then [] else rstrip_chr (CHR ''|'') b)"
    unfolding x rstrip_chr_append by simp
  then obtain b' where "rstrip_chr (CHR ''|'') x = a @ sub @ b'" ..
  then show ?thesis unfolding contains_iff by blast
qed

lemma contains_base: "contains x sub \<Longrightarrow> solid sub \<Longrightarrow> contains (row_base x) sub"
  unfolding row_base_def by (intro contains_rstrip contains_rstrip_chr)

lemma row_start_lstrip: "row_start x \<longleftrightarrow> (\<exists>t. lstrip x = CHR ''|'' # t)"
proof
  assume "row_start x"
  then obtain ws rest where "all_space ws" "x = ws @ CHR ''|'' # rest" by (auto simp: row_start_def)
  then show "\<exists>t. lstrip x = CHR ''|'' # t" by (simp add: lstrip_append)
next
  assume "\<exists>t. lstrip x = CHR ''|'' # t"
  then obtain t where t: "lstrip x = CHR ''|'' # t" by blast
  from lstrip_decomp [of x] obtain ws where "all_space ws" "x = ws @ lstrip x" by blast
  with t show "row_start x" unfolding row_start_def by metis
qed

lemma row_start_base:
  assumes "row_start l" and "good_line l"
  shows "row_start (row_base l)"
proof -
  from assms(1) obtain ws1 rest1 where w1: "all_space ws1" "l = ws1 @ CHR ''|'' # rest1"
    by (auto simp: row_start_def)
  from good_one_pipe [OF assms(2)] obtain n where
    n: "n \<le> 1" "l = rstrip_chr (CHR ''|'') l @ replicate n (CHR ''|'')" by blast
  from rstrip_decomp [of "rstrip_chr (CHR ''|'') l"] obtain ws2 where
    w2: "all_space ws2" "rstrip_chr (CHR ''|'') l = row_base l @ ws2"
        "row_base l = [] \<or> \<not> is_space (last (row_base l))"
    by (auto simp: row_base_def)
  from n(2) w2(2) have l: "l = row_base l @ ws2 @ replicate n (CHR ''|'')" by simp
  have ne: "row_base l \<noteq> []"
  proof
    assume e: "row_base l = []"
    with l have "lstrip l = lstrip (replicate n (CHR ''|''))"
      using w2(1) lstrip_append [of ws2 "replicate n (CHR ''|'')"] by simp
    moreover from n(1) have "n = 0 \<or> n = 1" by auto
    ultimately have "lstrip l = [] \<or> lstrip l = ''|''" by auto
    moreover from w1 have "lstrip l = CHR ''|'' # rest1" by (simp add: lstrip_append)
    ultimately show False using assms(2) by (auto simp: good_line_def)
  qed
  from l w1(2) have "ws1 @ CHR ''|'' # rest1 = row_base l @ (ws2 @ replicate n (CHR ''|''))" by simp
  then consider u where "ws1 = row_base l @ u" | u where "ws1 @ u = row_base l" "CHR ''|'' # rest1 = u @ ws2 @ replicate n (CHR ''|'')" "u \<noteq> []"
    by (auto simp: append_eq_append_conv2) (metis append.right_neutral)
  then show ?thesis
  proof cases
    case 1
    with w1(1) have "all_space (row_base l)" by simp
    with ne have "is_space (last (row_base l))" by (simp add: all_space_def)
    with w2(3) ne show ?thesis by simp
  next
    case 2
    from 2(2,3) obtain t where "u = CHR ''|'' # t" by (cases u) auto
    with 2(1) have "row_base l = ws1 @ CHR ''|'' # t" by simp
    with w1(1) show ?thesis unfolding row_start_def by blast
  qed
qed

lemma not_stops: "\<not> stops row next_line \<Longrightarrow> next_line \<noteq> [] \<and> CHR ''|'' \<in> set next_line"
  by (auto simp: stops_def)

lemma last_pipe_iff: "s \<noteq> [] \<Longrightarrow> endswith s ''|'' \<longleftrightarrow> last s = CHR ''|''"
  unfolding endswith_pipe by (metis append_butlast_last_id last_snoc)

lemma merge_form:
  assumes "strip next_line = next_line" and "next_line \<noteq> []"
  shows "extends (row_base row) (merge_continuation row next_line)"
proof -
  let ?t = "row_base row @ '' '' @ next_line"
  have m: "merge_continuation row next_line = (if endswith ?t ''|'' then ?t else ?t @ '' |'')"
    using assms by (simp add: merge_continuation_def Let_def row_base_def)
  show ?thesis
  proof (cases "endswith ?t ''|''")
    case True
    then have "last ?t = CHR ''|''" using last_pipe_iff [of ?t] by simp
    then have "last (CHR '' '' # next_line) = CHR ''|''" using assms(2) by simp
    moreover from m True have "merge_continuation row next_line = row_base row @ CHR '' '' # next_line"
      by simp
    ultimately show ?thesis unfolding extends_def by blast
  next
    case False
    with m have "merge_continuation row next_line = row_base row @ CHR '' '' # (next_line @ '' |'')"
      by simp
    moreover have "last (CHR '' '' # (next_line @ '' |'')) = CHR ''|''" by simp
    ultimately show ?thesis unfolding extends_def by blast
  qed
qed

lemma base_of_ext:
  assumes "extends A row" and "rstrip A = A"
  shows "row_base row = A \<or> (\<exists>v. row_base row = A @ CHR '' '' # v)"
proof -
  from assms(1) obtain w where w: "row = A @ CHR '' '' # w" by (auto simp: extends_def)
  have "rstrip_chr (CHR ''|'') ((A @ '' '') @ w)
        = (if set w \<subseteq> {CHR ''|''} then rstrip_chr (CHR ''|'') (A @ '' '')
           else (A @ '' '') @ rstrip_chr (CHR ''|'') w)"
    by (rule rstrip_chr_append)
  then obtain w' where w': "rstrip_chr (CHR ''|'') row = A @ CHR '' '' # w'"
    unfolding w by (cases "set w \<subseteq> {CHR ''|''}") auto
  have r: "rstrip (A @ (CHR '' '' # w'))
        = (if all_space (CHR '' '' # w') then rstrip A else A @ rstrip (CHR '' '' # w'))"
    by (rule rstrip_append)
  show ?thesis
  proof (cases "all_space w'")
    case True
    with r w' assms(2) show ?thesis by (simp add: row_base_def)
  next
    case False
    have "rstrip ('' '' @ w') = (if all_space w' then rstrip '' '' else '' '' @ rstrip w')"
      by (rule rstrip_append)
    with False have "rstrip (CHR '' '' # w') = CHR '' '' # rstrip w'" by simp
    with r False w' show ?thesis by (simp add: row_base_def)
  qed
qed

lemma ext_step:
  assumes "extends A row" and "rstrip A = A" and "strip next_line = next_line" and "next_line \<noteq> []"
  shows "extends A (merge_continuation row next_line)"
proof -
  from merge_form [OF assms(3,4), of row] obtain w where
    w: "merge_continuation row next_line = row_base row @ CHR '' '' # w" "last (CHR '' '' # w) = CHR ''|''"
    by (auto simp: extends_def)
  from base_of_ext [OF assms(1,2)] show ?thesis
  proof
    assume "row_base row = A"
    with w show ?thesis unfolding extends_def by auto
  next
    assume "\<exists>v. row_base row = A @ CHR '' '' # v"
    then obtain v where "row_base row = A @ CHR '' '' # v" by blast
    with w(1) have "merge_continuation row next_line = A @ CHR '' '' # (v @ CHR '' '' # w)" by simp
    moreover from w(2) have "last (CHR '' '' # (v @ CHR '' '' # w)) = CHR ''|''" by simp
    ultimately show ?thesis unfolding extends_def by blast
  qed
qed

lemma absorb_ext:
  "extends A row \<Longrightarrow> rstrip A = A \<Longrightarrow> extends A (fst (absorb row ls))"
proof (induction ls arbitrary: row)
  case Nil
  then show ?case by simp
next
  case (Cons l ls)
  show ?case
  proof (cases "stops row (strip l)")
    case True
    with Cons.prems show ?thesis by simp
  next
    case False
    from not_stops [OF False] have "strip l \<noteq> []" by simp
    with Cons.prems have "extends A (merge_continuation row (strip l))"
      by (intro ext_step) simp_all
    from Cons.IH [OF this Cons.prems(2)] False show ?thesis by simp
  qed
qed

lemma absorb_cases:
  "fst (absorb row ls) = row \<or> extends (row_base row) (fst (absorb row ls))"
proof (cases ls)
  case Nil
  then show ?thesis by simp
next
  case (Cons l ls')
  show ?thesis
  proof (cases "stops row (strip l)")
    case True
    with Cons show ?thesis by simp
  next
    case False
    from not_stops [OF False] have "strip l \<noteq> []" by simp
    then have "extends (row_base row) (merge_continuation row (strip l))" by (intro merge_form) simp_all
    then have "extends (row_base row) (fst (absorb (merge_continuation row (strip l)) ls'))"
      by (rule absorb_ext) simp
    with False Cons show ?thesis by simp
  qed
qed

lemma absorb_stop:
  "snd (absorb row ls) = [] \<or> stops (fst (absorb row ls)) (strip (hd (snd (absorb row ls))))"
  by (induction ls arbitrary: row) (auto simp: Let_def)

lemma count_ext:
  assumes "extends A row"
  shows "Suc (count_chr (CHR ''|'') A) \<le> count_chr (CHR ''|'') row"
proof -
  from assms obtain w where w: "row = A @ CHR '' '' # w" "last (CHR '' '' # w) = CHR ''|''"
    by (auto simp: extends_def)
  from w(2) have "w \<noteq> []" by auto
  with w(2) have "CHR ''|'' \<in> set w" by (metis last_ConsR last_in_set)
  then have "count_chr (CHR ''|'') w > 0" by (rule count_chr_pos)
  with w(1) show ?thesis by simp
qed

lemma row_end_ext: "extends A row \<Longrightarrow> row_end row"
proof -
  assume "extends A row"
  then obtain w where w: "row = A @ CHR '' '' # w" "last (CHR '' '' # w) = CHR ''|''"
    by (auto simp: extends_def)
  from w(2) have ne: "w \<noteq> []" by auto
  with w(2) have "w = butlast w @ ''|''" by (metis append_butlast_last_id last_ConsR)
  with w(1) have "row = (A @ CHR '' '' # butlast w) @ CHR ''|'' # []" by simp
  then show ?thesis unfolding row_end_def by (metis all_space_simps(1))
qed

lemma row_start_ext: "extends A row \<Longrightarrow> row_start A \<Longrightarrow> row_start row"
  unfolding extends_def row_start_def by (metis append_Cons append_assoc)

lemma contains_ext: "extends A row \<Longrightarrow> contains A sub \<Longrightarrow> contains row sub"
  unfolding extends_def contains_iff by (metis append_assoc)

lemma merged_row:
  assumes "is_table_row l" and "good_line l"
  shows "is_table_row (fst (absorb l ls))"
    and "count_chr (CHR ''|'') l \<le> count_chr (CHR ''|'') (fst (absorb l ls))"
    and "solid sub \<Longrightarrow> contains l sub \<Longrightarrow> contains (fst (absorb l ls)) sub"
proof -
  let ?raw = "fst (absorb l ls)"
  from assms(1) have rs: "row_start l" by (simp add: is_table_row_iff)
  from absorb_cases [of l ls] consider "?raw = l" | "extends (row_base l) ?raw" by blast
  then have "is_table_row ?raw \<and> count_chr (CHR ''|'') l \<le> count_chr (CHR ''|'') ?raw
             \<and> (solid sub \<longrightarrow> contains l sub \<longrightarrow> contains ?raw sub)"
  proof cases
    case 1
    with assms(1) show ?thesis by simp
  next
    case 2
    have "row_start ?raw" using 2 row_start_base [OF rs assms(2)] by (rule row_start_ext)
    moreover have "row_end ?raw" using 2 by (rule row_end_ext)
    moreover have "count_chr (CHR ''|'') l \<le> count_chr (CHR ''|'') ?raw"
      using count_base [OF assms(2)] count_ext [OF 2] by simp
    moreover have "solid sub \<longrightarrow> contains l sub \<longrightarrow> contains ?raw sub"
      using contains_ext [OF 2] contains_base by blast
    ultimately show ?thesis by (simp add: is_table_row_iff)
  qed
  then show "is_table_row ?raw"
    and "count_chr (CHR ''|'') l \<le> count_chr (CHR ''|'') ?raw"
    and "solid sub \<Longrightarrow> contains l sub \<Longrightarrow> contains ?raw sub"
    by simp_all
qed

lemma stops_count:
  "count_chr (CHR ''|'') r = count_chr (CHR ''|'') r' \<Longrightarrow> stops r n = stops r' n"
  by (simp add: stops_def)

lemma contains_of_strip: "contains (strip x) sub \<Longrightarrow> contains x sub"
proof -
  assume "contains (strip x) sub"
  then obtain a b where ab: "strip x = a @ sub @ b" by (auto simp: contains_iff)
  from strip_decomp [of x] obtain w1 w2 where "x = w1 @ strip x @ w2" by blast
  with ab have "x = (w1 @ a) @ sub @ (b @ w2)" by simp
  then show ?thesis unfolding contains_iff by blast
qed

lemma row_has_pipe: "is_table_row x \<Longrightarrow> CHR ''|'' \<in> set (strip x)"
  unfolding is_table_row_def startswith_pipe by auto

lemma stops_after_repair:
  assumes "stops raw (strip l')" and "good_line l'"
  shows "stops (clean_table_row raw) (strip (hd (fix_lines (l' # rest'))))"
proof (cases "is_table_row l'")
  case False
  with assms(1) show ?thesis using stops_count [OF count_clean [of raw]] by simp
next
  case True
  let ?raw' = "fst (absorb l' rest')"
  let ?out = "clean_table_row ?raw'"
  have out: "hd (fix_lines (l' # rest')) = ?out" using True by simp
  have row: "is_table_row ?out"
    using merged_row(1) [OF True assms(2)] by (rule is_table_row_clean)
  then have pipe: "CHR ''|'' \<in> set (strip ?out)" by (rule row_has_pipe)
  from True have lp: "CHR ''|'' \<in> set (strip l')" by (rule row_has_pipe)
  have "stops raw (strip ?out)"
  proof (cases "contains (strip l') ''---''")
    case True
    then have "contains l' ''---''" by (rule contains_of_strip)
    then have "contains ?raw' ''---''"
      using merged_row(3) [OF \<open>is_table_row l'\<close> assms(2) solid_dashes] by simp
    then have "contains ?out ''---''" using solid_dashes by (rule contains_clean)
    then have "contains (strip ?out) ''---''" using solid_dashes by (rule contains_strip)
    with pipe show ?thesis by (simp add: stops_def)
  next
    case False
    with assms(1) lp have "count_chr (CHR ''|'') raw \<le> count_chr (CHR ''|'') (strip l')"
      by (auto simp: stops_def)
    also have "\<dots> = count_chr (CHR ''|'') l'" by (rule count_strip)
    also have "\<dots> \<le> count_chr (CHR ''|'') ?raw'"
      using \<open>is_table_row l'\<close> assms(2) by (rule merged_row(2))
    also have "\<dots> = count_chr (CHR ''|'') (strip ?out)" by (simp add: count_strip count_clean)
    finally have "count_chr (CHR ''|'') raw \<le> count_chr (CHR ''|'') (strip ?out)" .
    with row pipe show ?thesis by (simp add: stops_def is_table_row_def)
  qed
  then show ?thesis unfolding out using stops_count [OF count_clean [of raw]] by simp
qed

lemma set_absorb_rest: "set (snd (absorb r ls)) \<subseteq> set ls"
  using absorb_suffix [of ls r] by (metis set_append sup_ge2)

lemma fix_lines_idem:
  "\<forall>l \<in> set ls. good_line l \<Longrightarrow> fix_lines (fix_lines ls) = fix_lines ls"
proof (induction ls rule: fix_lines.induct)
  case 1
  then show ?case by simp
next
  case (2 line ls)
  show ?case
  proof (cases "is_table_row line")
    case False
    with 2 show ?thesis by simp
  next
    case True
    let ?raw = "fst (absorb line ls)"
    let ?rest = "snd (absorb line ls)"
    from "2.prems" have g: "good_line line" by simp
    have gr: "\<forall>l \<in> set ?rest. good_line l" using "2.prems" set_absorb_rest [of line ls] by auto
    from "2.IH"(1) [OF True gr] have ih: "fix_lines (fix_lines ?rest) = fix_lines ?rest" .
    have row: "is_table_row (clean_table_row ?raw)"
      using merged_row(1) [OF True g] by (rule is_table_row_clean)
    have ab: "absorb (clean_table_row ?raw) (fix_lines ?rest) = (clean_table_row ?raw, fix_lines ?rest)"
    proof (cases ?rest)
      case Nil
      then show ?thesis by simp
    next
      case (Cons l' rest')
      from absorb_stop [of line ls] Cons have st: "stops ?raw (strip l')" by simp
      from gr Cons have "good_line l'" by simp
      with st have s2: "stops (clean_table_row ?raw) (strip (hd (fix_lines (l' # rest'))))"
        by (rule stops_after_repair)
      obtain o' tl' where ot: "fix_lines (l' # rest') = o' # tl'"
        by (cases "fix_lines (l' # rest')") (simp_all split: if_splits)
      with s2 show ?thesis unfolding Cons ot by simp
    qed
    have "fix_lines (fix_lines (line # ls)) = fix_lines (clean_table_row ?raw # fix_lines ?rest)"
      using True by simp
    also have "\<dots> = clean_table_row (clean_table_row ?raw) # fix_lines (fix_lines ?rest)"
      using row ab by simp
    also have "\<dots> = clean_table_row ?raw # fix_lines ?rest" by (simp add: clean_idem ih)
    also have "\<dots> = fix_lines (line # ls)" using True by simp
    finally show ?thesis .
  qed
qed

lemma set_merge:
  "set (merge_continuation row n) \<subseteq> set row \<union> set n \<union> {CHR '' '', CHR ''|''}"
proof -
  have "set (rstrip (rstrip_chr (CHR ''|'') row)) \<subseteq> set row"
    using set_rstrip [of "rstrip_chr (CHR ''|'') row"] set_rstrip_chr [of "CHR ''|''" row] by blast
  moreover have "set (strip n) \<subseteq> set n" by (rule set_strip)
  ultimately show ?thesis by (auto simp: merge_continuation_def Let_def)
qed

lemma set_absorb:
  "set (fst (absorb row ls)) \<subseteq> set row \<union> \<Union> (set ` set ls) \<union> {CHR '' '', CHR ''|''}"
proof (induction ls arbitrary: row)
  case Nil
  then show ?case by auto
next
  case (Cons l ls)
  show ?case
  proof (cases "stops row (strip l)")
    case True
    then show ?thesis by auto
  next
    case False
    have "set (fst (absorb (merge_continuation row (strip l)) ls))
          \<subseteq> set (merge_continuation row (strip l)) \<union> \<Union> (set ` set ls) \<union> {CHR '' '', CHR ''|''}"
      by (rule Cons.IH)
    moreover have "set (merge_continuation row (strip l)) \<subseteq> set row \<union> set l \<union> {CHR '' '', CHR ''|''}"
      using set_merge [of row "strip l"] set_strip [of l] by blast
    ultimately show ?thesis using False by auto
  qed
qed

lemma fix_lines_free:
  assumes "c \<noteq> CHR '' ''" and "c \<noteq> CHR ''|''"
  shows "\<forall>l \<in> set ls. c \<notin> set l \<Longrightarrow> \<forall>l \<in> set (fix_lines ls). c \<notin> set l"
proof (induction ls rule: fix_lines.induct)
  case 1
  then show ?case by simp
next
  case (2 line ls)
  show ?case
  proof (cases "is_table_row line")
    case False
    with 2 show ?thesis by simp
  next
    case True
    let ?raw = "fst (absorb line ls)"
    let ?rest = "snd (absorb line ls)"
    have "\<forall>l \<in> set ?rest. c \<notin> set l" using "2.prems" set_absorb_rest [of line ls] by auto
    from "2.IH"(1) [OF True this] have ih: "\<forall>l \<in> set (fix_lines ?rest). c \<notin> set l" .
    have "c \<notin> set ?raw" using set_absorb [of line ls] "2.prems" assms by auto
    then have "c \<notin> set (clean_table_row ?raw)" using set_clean [of ?raw] assms(1) by auto
    with ih True show ?thesis by simp
  qed
qed

lemma fix_lines_nonempty: "ls \<noteq> [] \<Longrightarrow> fix_lines ls \<noteq> []"
  by (cases ls) (simp_all split: if_splits)

text \<open>
  C6 (as amended). The repair pass is not idempotent on every text. It is on every text
  in which no line ends with two pipes and no line is a single pipe (after leading
  whitespace): there, applying the pass twice gives the same text as applying it once.
\<close>

theorem repair_idempotent_on_good_lines:
  assumes "\<forall>l \<in> set (split_chr (CHR 0x0A) md). \<not> endswith l ''||'' \<and> lstrip l \<noteq> ''|''"
  shows "fix_markdown_tables (fix_markdown_tables md) = fix_markdown_tables md"
proof -
  let ?ls = "split_chr (CHR 0x0A) md"
  let ?out = "fix_lines ?ls"
  have free: "\<forall>l \<in> set ?out. CHR 0x0A \<notin> set l"
    by (rule fix_lines_free) (auto dest: split_parts_free)
  have ne: "?out \<noteq> []" by (rule fix_lines_nonempty) simp
  have "split_chr (CHR 0x0A) (join [CHR 0x0A] ?out) = ?out" using ne free by (rule split_join)
  moreover have "fix_lines ?out = ?out" using assms by (intro fix_lines_idem) (simp add: good_line_def)
  ultimately show ?thesis by (simp add: fix_markdown_tables_def)
qed

theorem repair_idempotent_on_good_lines_witness:
  "fix_markdown_tables (fix_markdown_tables broken_row_text)
   = ''intro'' @ [CHR 0x0A] @ ''| a b | c |'' @ [CHR 0x0A] @ ''outro''"
proof -
  have g: "\<forall>l \<in> set (split_chr (CHR 0x0A) broken_row_text). \<not> endswith l ''||'' \<and> lstrip l \<noteq> ''|''"
    by code_simp
  have b: "fix_markdown_tables broken_row_text
           = ''intro'' @ [CHR 0x0A] @ ''| a b | c |'' @ [CHR 0x0A] @ ''outro''"
    by code_simp
  from repair_idempotent_on_good_lines [OF g] b show ?thesis by simp
qed

theorem repair_not_idempotent:
  "fix_markdown_tables narrowing_text = ''| x | y |'' @ [CHR 0x0A] @ ''| a b |''
   \<and> fix_markdown_tables (fix_markdown_tables narrowing_text) = ''| x | y | a b |''
   \<and> fix_markdown_tables (fix_markdown_tables narrowing_text) \<noteq> fix_markdown_tables narrowing_text"
  by code_simp

end
